theory Spec2Isabelle
  imports Complex_Main "HOL-Library.Char_ord"
begin

section \<open>Jacobi solver for the Poisson equation (openmp/poisson\_openmp.c)\<close>

text \<open>
  The C program works on three flat buffers of doubles, reached through the pointers
  \<open>x\<close>, \<open>b\<close> and \<open>t\<close>, each holding an \<open>(N+2) \<times> (M+2)\<close> field in row-major order with
  leading dimension \<open>ld = M+2\<close>.  The embedding keeps the pointers: memory is a store from
  element addresses to values, a pointer is an address, and \<open>p[k]\<close> is the store at
  \<open>p + k\<close>.  Whether two buffers overlap is therefore visible in the statements instead of
  being decided by the shape of the model.

  Two idealisations are made and hold for every definition below.
  \<^item> A \<open>double\<close> is a real number: rounding, infinities and NaN are outside the model.
    The OpenMP reduction leaves the order of the additions open; over the reals every
    order gives the same sum, so the sequential loop nest stands for all schedules.
  \<^item> Arithmetic on C \<open>int\<close> is exact.  The buffers of \<open>(N+2)*(M+2)\<close> elements exist only
    when that product is representable, and then no index expression overflows.  The
    narrowing of the parsed arguments to 32 bits is part of the model of \<open>atoi\<close>.

  The \<open>parallel for\<close> loops write disjoint elements and are separated by barriers, so each
  is modelled by the sequential loop nest it annotates.
\<close>

type_synonym heap = "int \<Rightarrow> real"

subsection \<open>The loop nest over the interior points\<close>

text \<open>\<^verbatim>\<open>for (i=1; i<=N; i++) for (j=1; j<=M; j++) body\<close>, threading the state that the
  body updates.\<close>

definition for_interior :: "int \<Rightarrow> int \<Rightarrow> (int \<Rightarrow> int \<Rightarrow> 'a \<Rightarrow> 'a) \<Rightarrow> 'a \<Rightarrow> 'a" where
  "for_interior N M body = fold (\<lambda>i. fold (\<lambda>j. body i j) [1..M]) [1..N]"

subsection \<open>jacobi\_step\<close>

definition jacobi_step :: "int \<Rightarrow> int \<Rightarrow> int \<Rightarrow> int \<Rightarrow> int \<Rightarrow> heap \<Rightarrow> heap" where
  "jacobi_step N M x b t =
     (let ld = M + 2 in
      for_interior N M (\<lambda>i j h.
        h(t + (i*ld + j) :=
            (h (b + (i*ld + j)) + h (x + ((i+1)*ld + j)) + h (x + ((i-1)*ld + j))
               + h (x + (i*ld + (j+1))) + h (x + (i*ld + (j-1)))) / 4)))"

subsection \<open>jacobi\_poisson\<close>

definition maxit :: int where
  "maxit = 70000"

definition tol :: real where
  "tol = 1 / 1000000"

text \<open>\<open>calloc\<close> hands out a block of \<open>n\<close> zeroed elements; \<open>p\<close> is the address it returns.\<close>

definition calloc :: "int \<Rightarrow> int \<Rightarrow> heap \<Rightarrow> heap" where
  "calloc p n h = (\<lambda>a. if p \<le> a \<and> a < p + n then 0 else h a)"

text \<open>The variables the \<open>while\<close> loop changes: memory, the locals \<open>k\<close>, \<open>conv\<close> and \<open>s\<close>,
  and the lines printed so far (iteration index and \<open>sqrt(s)\<close>).\<close>

record loop_state =
  st_mem :: heap
  st_k :: int
  st_conv :: bool
  st_s :: real
  st_out :: "(int \<times> real) list"

text \<open>One pass through the body of the \<open>while\<close> loop: the sweep, the reduction, the
  \<open>single\<close> block and the copy of \<open>t\<close> into \<open>x\<close>.\<close>

definition jacobi_cycle :: "int \<Rightarrow> int \<Rightarrow> int \<Rightarrow> int \<Rightarrow> int \<Rightarrow> loop_state \<Rightarrow> loop_state" where
  "jacobi_cycle N M x b t st =
     (let ld = M + 2;
          h1 = jacobi_step N M x b t (st_mem st);
          s1 = for_interior N M (\<lambda>i j s.
                 s + (h1 (x + (i*ld + j)) - h1 (t + (i*ld + j)))
                       * (h1 (x + (i*ld + j)) - h1 (t + (i*ld + j)))) 0;
          conv1 = (sqrt s1 < tol);
          out1 = st_out st @ [(st_k st, sqrt s1)];
          k1 = st_k st + 1;
          h2 = for_interior N M (\<lambda>i j h. h(x + (i*ld + j) := h (t + (i*ld + j)))) h1
      in \<lparr>st_mem = h2, st_k = k1, st_conv = conv1, st_s = s1, st_out = out1\<rparr>)"

function jacobi_while :: "int \<Rightarrow> int \<Rightarrow> int \<Rightarrow> int \<Rightarrow> int \<Rightarrow> loop_state \<Rightarrow> loop_state" where
  "jacobi_while N M x b t st =
     (if \<not> st_conv st \<and> st_k st < maxit
      then jacobi_while N M x b t (jacobi_cycle N M x b t st)
      else st)"
  by pat_completeness auto
termination
  by (relation "measure (\<lambda>(N, M, x, b, t, st). nat (maxit - st_k st))")
     (simp_all add: jacobi_cycle_def Let_def)

declare jacobi_while.simps [simp del]

text \<open>The state in which \<open>jacobi_poisson\<close> enters its loop.  \<open>t\<close> is the block returned by
  \<open>calloc\<close>; \<open>s\<close> has no initial value in the source and is assigned before it is read.\<close>

definition jacobi_entry :: "int \<Rightarrow> int \<Rightarrow> int \<Rightarrow> heap \<Rightarrow> loop_state" where
  "jacobi_entry N M t h =
     \<lparr>st_mem = calloc t ((N+2)*(M+2)) h, st_k = 0, st_conv = False, st_s = 0, st_out = []\<rparr>"

text \<open>The state in which the loop is left.\<close>

definition jacobi_exit :: "int \<Rightarrow> int \<Rightarrow> int \<Rightarrow> int \<Rightarrow> int \<Rightarrow> heap \<Rightarrow> loop_state" where
  "jacobi_exit N M x b t h = jacobi_while N M x b t (jacobi_entry N M t h)"

text \<open>The function returns nothing: what the caller has afterwards is memory (with \<open>x\<close>
  updated in place) and the lines on standard output.\<close>

definition jacobi_poisson :: "int \<Rightarrow> int \<Rightarrow> int \<Rightarrow> int \<Rightarrow> int \<Rightarrow> heap \<Rightarrow> heap \<times> (int \<times> real) list" where
  "jacobi_poisson N M x b t h =
     (let st = jacobi_exit N M x b t h in (st_mem st, st_out st))"

subsection \<open>main\<close>

text \<open>\<open>atoi\<close> of the C library, as glibc has it on a 64-bit platform: \<open>(int) strtol(s, NULL, 10)\<close>.
  \<open>strtol\<close> skips leading white space, takes an optional sign and then decimal digits up to
  the first other character (no digits give 0), and saturates at the range of \<open>long\<close>;
  \<open>digits\<close> is the value of the digit run before saturation.  The conversion to \<open>int\<close> keeps
  the low 32 bits in two's complement.  The C standard leaves the result undefined when the
  value is not representable as \<open>int\<close>.\<close>

definition isspace :: "char \<Rightarrow> bool" where
  "isspace c \<longleftrightarrow> c \<in> set [CHR '' '', CHR 0x09, CHR 0x0A, CHR 0x0B, CHR 0x0C, CHR 0x0D]"

definition isdigit :: "char \<Rightarrow> bool" where
  "isdigit c \<longleftrightarrow> CHR ''0'' \<le> c \<and> c \<le> CHR ''9''"

fun digits :: "int \<Rightarrow> string \<Rightarrow> int" where
  "digits acc [] = acc"
| "digits acc (c # cs) =
     (if isdigit c then digits (10 * acc + (of_char c - of_char CHR ''0'')) cs else acc)"

definition strtol :: "string \<Rightarrow> int" where
  "strtol str =
     (let r = dropWhile isspace str;
          v = (if r \<noteq> [] \<and> hd r = CHR ''-'' then - digits 0 (tl r)
               else if r \<noteq> [] \<and> hd r = CHR ''+'' then digits 0 (tl r)
               else digits 0 r)
      in max (- (2 ^ 63)) (min (2 ^ 63 - 1) v))"

definition int_of_long :: "int \<Rightarrow> int" where
  "int_of_long v = (v + 2 ^ 31) mod 2 ^ 32 - 2 ^ 31"

definition atoi :: "string \<Rightarrow> int" where
  "atoi str = int_of_long (strtol str)"

text \<open>Lines 95 to 104: \<open>argc\<close> is the length of \<open>argv\<close>.\<close>

definition arg_N :: "string list \<Rightarrow> int" where
  "arg_N argv =
     (if length argv > 1
      then (let n = atoi (argv ! 1) in if n < 0 then 50 else n)
      else 50)"

definition arg_M :: "string list \<Rightarrow> int" where
  "arg_M argv =
     (if length argv > 2
      then (let m = atoi (argv ! 2) in if m < 0 then 1 else m)
      else 50)"

text \<open>What the run of \<open>main\<close> depends on besides \<open>argv\<close>: the blocks \<open>calloc\<close> returns (it is
  taken to succeed), the memory found at start, and whether each \<open>fopen\<close> succeeds.\<close>

record os_env =
  x_block :: int
  b_block :: int
  t_block :: int
  mem0 :: heap
  report_opens :: bool
  dump_opens :: bool

text \<open>\<open>fprintf\<close> on the null stream of a failed \<open>fopen("output.txt")\<close> is undefined.\<close>

datatype fault = NullStream

text \<open>What a run that returns leaves behind: the exit code, the grid size written to the
  report, and the rows of the matrix dump when that file was opened.  Timing and thread
  count are not modelled.\<close>

record outcome =
  exit_code :: int
  report_size :: "int \<times> int"
  dump :: "real list list option"

definition main :: "string list \<Rightarrow> os_env \<Rightarrow> fault + outcome" where
  "main argv env =
     (let N = arg_N argv;
          M = arg_M argv;
          h = 1 / 100;
          f = 3 / 2;
          ld = M + 2;
          x = x_block env;
          b = b_block env;
          mx = calloc x ((N+2)*(M+2)) (mem0 env);
          mb = calloc b ((N+2)*(M+2)) mx;
          m0 = for_interior N M (\<lambda>i j m. m(b + (i*ld + j) := h*h*f)) mb;
          m1 = fst (jacobi_poisson N M x b (t_block env) m0)
      in if \<not> report_opens env then Inl NullStream
         else if \<not> dump_opens env
         then Inr \<lparr>exit_code = 1, report_size = (N, M), dump = None\<rparr>
         else Inr \<lparr>exit_code = 0, report_size = (N, M),
                   dump = Some (map (\<lambda>i. map (\<lambda>j. m1 (x + (i*ld + j))) [1..M]) [1..N])\<rparr>)"

subsection \<open>Vocabulary of the statements\<close>

text \<open>Point \<open>(i,j)\<close> of a field is stored at offset \<open>i*(M+2) + j\<close>.  Interior points have
  \<open>1 \<le> i \<le> N\<close> and \<open>1 \<le> j \<le> M\<close>; boundary points lie on the first or last row or column.\<close>

definition interior :: "int \<Rightarrow> int \<Rightarrow> int \<Rightarrow> int \<Rightarrow> bool" where
  "interior N M i j \<longleftrightarrow> 1 \<le> i \<and> i \<le> N \<and> 1 \<le> j \<and> j \<le> M"

definition boundary :: "int \<Rightarrow> int \<Rightarrow> int \<Rightarrow> int \<Rightarrow> bool" where
  "boundary N M i j \<longleftrightarrow>
     ((i = 0 \<or> i = N + 1) \<and> 0 \<le> j \<and> j \<le> M + 1) \<or>
     ((j = 0 \<or> j = M + 1) \<and> 0 \<le> i \<and> i \<le> N + 1)"

text \<open>The buffers at \<open>p\<close> and \<open>q\<close>, each of \<open>(N+2)*(M+2)\<close> elements, do not overlap.\<close>

definition separate :: "int \<Rightarrow> int \<Rightarrow> int \<Rightarrow> int \<Rightarrow> bool" where
  "separate N M p q \<longleftrightarrow> p + (N+2)*(M+2) \<le> q \<or> q + (N+2)*(M+2) \<le> p"

text \<open>The terminal states of the controller, read off the loop's exit state.\<close>

datatype terminal = Converged | Exhausted

definition terminal_state :: "loop_state \<Rightarrow> terminal" where
  "terminal_state st = (if st_conv st then Converged else Exhausted)"

subsection \<open>Concrete inputs and the predicates of their runs\<close>

text \<open>\<open>1 \<times> 1\<close> problems with \<open>x\<close> at address 0, \<open>b\<close> at 9 and \<open>t\<close> at 18 (\<open>ld = 3\<close>, nine elements
  per buffer).  Memory is zero except for \<open>b[1,1]\<close>, which is \<open>2\<^sup>-\<^sup>2\<^sup>0\<close> in \<open>rhs_small\<close> and 4 in
  \<open>rhs_four\<close>, and in \<open>start_one\<close> also for \<open>x[1,1] = 1\<close>, the solution for \<open>b[1,1] = 4\<close>.  All
  values are doubles, and so is every value computed from them below.\<close>

definition rhs_small :: heap where
  "rhs_small = (\<lambda>_. 0)(9 + (1 * (1+2) + 1) := 1 / 1048576)"

definition rhs_four :: heap where
  "rhs_four = (\<lambda>_. 0)(9 + (1 * (1+2) + 1) := 4)"

definition start_one :: heap where
  "start_one = (\<lambda>_. 0)(0 + (1 * (1+2) + 1) := 1, 9 + (1 * (1+2) + 1) := 4)"

text \<open>The right-hand side \<open>main\<close> builds in zeroed memory: \<open>v\<close> at the interior entries of
  \<open>b\<close>, zero elsewhere.  The run \<^verbatim>\<open>poisson 599 599\<close> calls \<open>jacobi_poisson\<close> on
  \<open>rhs_const 599 599 b (3/20000)\<close>, since \<open>h*h*f = 0.01 * 0.01 * 1.5\<close>; below \<open>x\<close> is at address
  0, \<open>b\<close> at \<open>601\<^sup>2 = 361201\<close> and \<open>t\<close> at 722402.\<close>

definition rhs_const :: "int \<Rightarrow> int \<Rightarrow> int \<Rightarrow> real \<Rightarrow> heap" where
  "rhs_const N M b v = for_interior N M (\<lambda>i j m. m(b + (i*(M+2) + j) := v)) (\<lambda>_. 0)"

text \<open>On a square grid with \<open>N = M = 2m - 1\<close> the function
  \<open>c (1 - ((i-m)\<^sup>2 + (j-m)\<^sup>2 + k) / m\<^sup>2)\<close> satisfies the averaging recursion of the sweep exactly
  and is at most zero on the boundary.  A loop state is \<open>growing\<close> at step \<open>k\<close> when the
  boundary of \<open>x\<close> is zero, \<open>b\<close> is \<open>4c\<close> on the interior, and the next sweep raises every
  interior entry of \<open>x\<close> by at least that function.\<close>

definition paraboloid :: "int \<Rightarrow> real \<Rightarrow> nat \<Rightarrow> int \<Rightarrow> int \<Rightarrow> real" where
  "paraboloid m c k i j =
     c * (1 - ((of_int (i - m))\<^sup>2 + (of_int (j - m))\<^sup>2 + of_nat k) / (of_int m)\<^sup>2)"

definition growing ::
  "int \<Rightarrow> int \<Rightarrow> int \<Rightarrow> int \<Rightarrow> int \<Rightarrow> int \<Rightarrow> real \<Rightarrow> nat \<Rightarrow> loop_state \<Rightarrow> bool" where
  "growing N M x b t m c k st \<longleftrightarrow>
     (\<forall>i j. boundary N M i j \<longrightarrow> st_mem st (x + (i * (M+2) + j)) = 0)
     \<and> (\<forall>i j. interior N M i j \<longrightarrow> st_mem st (b + (i * (M+2) + j)) = 4 * c)
     \<and> (\<forall>i j. interior N M i j \<longrightarrow>
           paraboloid m c k i j
             \<le> jacobi_step N M x b t (st_mem st) (t + (i * (M+2) + j))
                 - st_mem st (x + (i * (M+2) + j)))"

text \<open>An environment for \<open>main\<close> with zeroed memory; \<open>r\<close> and \<open>d\<close> say whether the report file and
  the matrix dump can be opened.\<close>

definition run_env :: "bool \<Rightarrow> bool \<Rightarrow> os_env" where
  "run_env r d = \<lparr>x_block = 0, b_block = 100, t_block = 200, mem0 = (\<lambda>_. 0),
                  report_opens = r, dump_opens = d\<rparr>"

text \<open>Following the specification's words (two optional positive integers): an argument
  is valid when it is the decimal numeral of a positive integer.\<close>

definition positive_integer_arg :: "string \<Rightarrow> bool" where
  "positive_integer_arg str \<longleftrightarrow> str \<noteq> [] \<and> list_all isdigit str \<and> 0 < digits 0 str"

section \<open>Auxiliary facts\<close>

subsection \<open>Loop nests that write one element per point\<close>

lemma nested_fold_product:
  "fold (\<lambda>i. fold (\<lambda>j. f i j) js) is = fold (\<lambda>(i, j). f i j) (List.product is js)"
proof (induction "is")
  case Nil
  show ?case by simp
next
  case (Cons i "is")
  have "fold (\<lambda>(i, j). f i j) (map (Pair i) js) = fold (f i) js"
    by (simp add: fold_map comp_def)
  with Cons show ?case by (simp add: comp_def)
qed

lemma for_interior_product:
  "for_interior N M body = fold (\<lambda>(i, j). body i j) (List.product [1..N] [1..M])"
  unfolding for_interior_def by (rule nested_fold_product)

lemma fold_write_other:
  "a \<notin> addr ` set ks \<Longrightarrow> fold (\<lambda>k h. h(addr k := val k h)) ks h a = h a"
  by (induction ks arbitrary: h) auto

lemma fold_write_at:
  assumes "distinct (map addr ks)" and "k \<in> set ks"
    and "\<And>h'. (\<forall>a. a \<notin> addr ` set ks \<longrightarrow> h' a = h a) \<Longrightarrow> val k h' = val k h"
  shows "fold (\<lambda>k h. h(addr k := val k h)) ks h (addr k) = val k h"
  using assms
proof (induction ks arbitrary: h)
  case Nil
  then show ?case by simp
next
  case (Cons k0 ks)
  let ?h1 = "h(addr k0 := val k0 h)"
  have same: "val k ?h1 = val k h"
    by (rule Cons.prems(3)) simp
  show ?case
  proof (cases "k \<in> set ks")
    case True
    have frame: "val k h' = val k ?h1" if "\<forall>a. a \<notin> addr ` set ks \<longrightarrow> h' a = ?h1 a" for h'
    proof -
      have "\<forall>a. a \<notin> addr ` set (k0 # ks) \<longrightarrow> h' a = h a"
        using that by simp
      then have "val k h' = val k h" by (rule Cons.prems(3))
      with same show ?thesis by simp
    qed
    have d: "distinct (map addr ks)" using Cons.prems(1) by simp
    have "fold (\<lambda>k h. h(addr k := val k h)) ks ?h1 (addr k) = val k ?h1"
      using d True frame by (rule Cons.IH)
    with same have "fold (\<lambda>k h. h(addr k := val k h)) ks ?h1 (addr k) = val k h"
      by (simp only:)
    then show ?thesis by (simp only: fold_simps o_apply)
  next
    case False
    with Cons.prems(2) have k: "k = k0" by simp
    have "addr k0 \<notin> addr ` set ks" using Cons.prems(1) by auto
    then have "fold (\<lambda>k h. h(addr k := val k h)) ks ?h1 (addr k0) = ?h1 (addr k0)"
      by (rule fold_write_other)
    then have "fold (\<lambda>k h. h(addr k := val k h)) ks ?h1 (addr k0) = val k0 h"
      by (simp only: fun_upd_same)
    then show ?thesis unfolding k by (simp only: fold_simps o_apply)
  qed
qed

lemma flat_index_inj:
  fixes ld :: int
  assumes "i * ld + j = i' * ld + j'" "0 \<le> j" "j < ld" "0 \<le> j'" "j' < ld"
  shows "i = i' \<and> j = j'"
proof -
  have a: "(i * ld + j) div ld = i" using assms(2,3) by simp
  have b: "(i' * ld + j') div ld = i'" using assms(4,5) by simp
  from a b assms(1) have "i = i'" by metis
  with assms(1) show ?thesis by simp
qed

lemma flat_index_bounds:
  fixes N M :: int
  assumes "0 \<le> i" "i \<le> N + 1" "0 \<le> j" "j \<le> M + 1"
  shows "0 \<le> i * (M+2) + j" "i * (M+2) + j < (N+2) * (M+2)"
proof -
  show "0 \<le> i * (M+2) + j" using assms by simp
  have "i * (M+2) \<le> (N+1) * (M+2)" using assms by (intro mult_right_mono) auto
  then show "i * (M+2) + j < (N+2) * (M+2)" using assms by (simp add: algebra_simps)
qed

lemma interior_addr_inj:
  assumes "interior N M i j" "interior N M i' j'" "p + (i * (M+2) + j) = p + (i' * (M+2) + j')"
  shows "i = i' \<and> j = j'"
proof -
  have "i * (M+2) + j = i' * (M+2) + j'" using assms(3) by simp
  moreover have "0 \<le> j" "j < M+2" "0 \<le> j'" "j' < M+2"
    using assms(1,2) by (simp_all add: interior_def)
  ultimately show ?thesis by (rule flat_index_inj)
qed

lemma distinct_interior_addrs:
  "distinct (map (\<lambda>(i, j). p + (i * (M+2) + j)) (List.product [1..N] [1..M]))"
proof -
  have "inj_on (\<lambda>(i, j). p + (i * (M+2) + j)) (set (List.product [1..N] [1..M]))"
  proof (rule inj_onI)
    fix u v
    assume u: "u \<in> set (List.product [1..N] [1..M])"
      and v: "v \<in> set (List.product [1..N] [1..M])"
      and e: "(\<lambda>(i, j). p + (i * (M+2) + j)) u = (\<lambda>(i, j). p + (i * (M+2) + j)) v"
    obtain i j where uu: "u = (i, j)" by (cases u)
    obtain i' j' where vv: "v = (i', j')" by (cases v)
    have "interior N M i j" "interior N M i' j'"
      using u v by (simp_all add: uu vv interior_def)
    moreover have "p + (i * (M+2) + j) = p + (i' * (M+2) + j')"
      using e by (simp add: uu vv)
    ultimately have "i = i' \<and> j = j'" by (rule interior_addr_inj)
    then show "u = v" by (simp add: uu vv)
  qed
  then show ?thesis by (simp add: distinct_map distinct_product)
qed

lemma for_interior_write_other:
  assumes "\<And>i j. interior N M i j \<Longrightarrow> a \<noteq> p + (i * (M+2) + j)"
  shows "for_interior N M (\<lambda>i j h. h(p + (i * (M+2) + j) := val i j h)) h a = h a"
proof -
  have "a \<notin> (\<lambda>(i, j). p + (i * (M+2) + j)) ` set (List.product [1..N] [1..M])"
  proof
    assume "a \<in> (\<lambda>(i, j). p + (i * (M+2) + j)) ` set (List.product [1..N] [1..M])"
    then obtain i j where "interior N M i j" "a = p + (i * (M+2) + j)"
      by (auto simp: interior_def)
    with assms show False by blast
  qed
  from fold_write_other [OF this, of "\<lambda>(i, j). val i j" h]
  show ?thesis by (simp add: for_interior_product case_prod_unfold)
qed

lemma for_interior_write_at:
  assumes "interior N M i j"
    and "\<And>h'. (\<forall>a. (\<forall>i j. interior N M i j \<longrightarrow> a \<noteq> p + (i * (M+2) + j)) \<longrightarrow> h' a = h a)
           \<Longrightarrow> val i j h' = val i j h"
  shows "for_interior N M (\<lambda>i j h. h(p + (i * (M+2) + j) := val i j h)) h (p + (i * (M+2) + j))
           = val i j h"
proof -
  let ?addr = "\<lambda>(i, j). p + (i * (M+2) + j)"
  let ?ks = "List.product [1..N] [1..M]"
  have mem: "(i, j) \<in> set ?ks" using assms(1) by (simp add: interior_def)
  have fr: "(\<lambda>(i, j). val i j) (i, j) h' = (\<lambda>(i, j). val i j) (i, j) h"
    if "\<forall>a. a \<notin> ?addr ` set ?ks \<longrightarrow> h' a = h a" for h'
  proof -
    have "\<forall>a. (\<forall>i j. interior N M i j \<longrightarrow> a \<noteq> p + (i * (M+2) + j)) \<longrightarrow> h' a = h a"
    proof (intro allI impI)
      fix a assume *: "\<forall>i j. interior N M i j \<longrightarrow> a \<noteq> p + (i * (M+2) + j)"
      have "a \<notin> ?addr ` set ?ks"
      proof
        assume "a \<in> ?addr ` set ?ks"
        then obtain i j where "interior N M i j" "a = p + (i * (M+2) + j)"
          by (auto simp: interior_def)
        with * show False by blast
      qed
      with that show "h' a = h a" by blast
    qed
    from assms(2) [OF this] show ?thesis by simp
  qed
  from fold_write_at [of ?addr ?ks "(i, j)" h "\<lambda>(i, j). val i j", OF distinct_interior_addrs mem fr]
  show ?thesis by (simp add: for_interior_product case_prod_unfold)
qed

lemma separate_interior:
  assumes "separate N M t q" "interior N M i j" "0 \<le> k" "k < (N+2)*(M+2)"
  shows "q + k \<noteq> t + (i * (M+2) + j)"
proof -
  have "0 \<le> i * (M+2) + j" "i * (M+2) + j < (N+2) * (M+2)"
    using assms(2) by (auto simp: interior_def intro!: flat_index_bounds)
  with assms(1,3,4) show ?thesis unfolding separate_def by linarith
qed

lemma stencil_offsets:
  assumes "interior N M i j"
  shows "0 \<le> i * (M+2) + j \<and> i * (M+2) + j < (N+2) * (M+2)"
    and "0 \<le> (i+1) * (M+2) + j \<and> (i+1) * (M+2) + j < (N+2) * (M+2)"
    and "0 \<le> (i-1) * (M+2) + j \<and> (i-1) * (M+2) + j < (N+2) * (M+2)"
    and "0 \<le> i * (M+2) + (j+1) \<and> i * (M+2) + (j+1) < (N+2) * (M+2)"
    and "0 \<le> i * (M+2) + (j-1) \<and> i * (M+2) + (j-1) < (N+2) * (M+2)"
  using assms by (auto simp: interior_def intro!: flat_index_bounds)

lemma jacobi_step_other:
  assumes "\<And>i j. interior N M i j \<Longrightarrow> a \<noteq> t + (i * (M+2) + j)"
  shows "jacobi_step N M x b t h a = h a"
  unfolding jacobi_step_def Let_def using assms by (rule for_interior_write_other)

lemma jacobi_step_at:
  assumes ij: "interior N M i j" and tx: "separate N M t x" and tb: "separate N M t b"
  shows "jacobi_step N M x b t h (t + (i * (M+2) + j)) =
           (h (b + (i * (M+2) + j)) + h (x + ((i+1) * (M+2) + j)) + h (x + ((i-1) * (M+2) + j))
              + h (x + (i * (M+2) + (j+1))) + h (x + (i * (M+2) + (j-1)))) / 4"
  unfolding jacobi_step_def Let_def
proof (rule for_interior_write_at [OF ij])
  fix h' :: heap
  assume fr: "\<forall>a. (\<forall>i j. interior N M i j \<longrightarrow> a \<noteq> t + (i * (M+2) + j)) \<longrightarrow> h' a = h a"
  have keep: "h' (q + k) = h (q + k)"
    if "separate N M t q" "0 \<le> k \<and> k < (N+2)*(M+2)" for q k
    using fr separate_interior [OF that(1)] that(2) by blast
  note o = stencil_offsets [OF ij]
  show "(h' (b + (i * (M+2) + j)) + h' (x + ((i+1) * (M+2) + j)) + h' (x + ((i-1) * (M+2) + j))
              + h' (x + (i * (M+2) + (j+1))) + h' (x + (i * (M+2) + (j-1)))) / 4
      = (h (b + (i * (M+2) + j)) + h (x + ((i+1) * (M+2) + j)) + h (x + ((i-1) * (M+2) + j))
              + h (x + (i * (M+2) + (j+1))) + h (x + (i * (M+2) + (j-1)))) / 4"
    by (simp only: keep [OF tb o(1)] keep [OF tx o(2)] keep [OF tx o(3)]
          keep [OF tx o(4)] keep [OF tx o(5)])
qed

section \<open>The stencil\<close>

text \<open>
  Claim C1.  For all \<open>N, M \<ge> 1\<close> and every interior point \<open>(i,j)\<close>, one call of
  \<open>jacobi_step\<close> leaves in \<open>t[i,j]\<close> the value
  \<open>(b[i,j] + x[i+1,j] + x[i-1,j] + x[i,j+1] + x[i,j-1]) / 4\<close>, computed from the memory
  before the call; with \<open>N = M = 1\<close> and every entry of \<open>x\<close> zero this is \<open>b[1,1] / 4\<close>.
  The output buffer \<open>t\<close> overlaps neither \<open>x\<close> nor \<open>b\<close>, as in \<open>jacobi_poisson\<close>, where
  it is a fresh block.
\<close>

theorem jacobi_step_stencil:
  assumes "1 \<le> N" "1 \<le> M" "1 \<le> i" "i \<le> N" "1 \<le> j" "j \<le> M"
    and "separate N M t x" "separate N M t b"
  shows "jacobi_step N M x b t h (t + (i * (M+2) + j)) =
           (h (b + (i * (M+2) + j)) + h (x + ((i+1) * (M+2) + j)) + h (x + ((i-1) * (M+2) + j))
              + h (x + (i * (M+2) + (j+1))) + h (x + (i * (M+2) + (j-1)))) / 4
       \<and> (N = 1 \<and> M = 1 \<and> (\<forall>k. 0 \<le> k \<and> k < 9 \<longrightarrow> h (x + k) = 0)
            \<longrightarrow> jacobi_step 1 1 x b t h (t + 4) = h (b + 4) / 4)"
proof -
  have ij: "interior N M i j" using assms by (simp add: interior_def)
  note eq = jacobi_step_at [OF ij assms(7,8), of h]
  have "jacobi_step 1 1 x b t h (t + 4) = h (b + 4) / 4"
    if "N = 1" "M = 1" "\<forall>k. 0 \<le> k \<and> k < 9 \<longrightarrow> h (x + k) = 0"
  proof -
    have "i = 1" "j = 1" using assms that by simp_all
    with eq that show ?thesis by simp
  qed
  with eq show ?thesis by blast
qed

theorem jacobi_step_stencil_witness:
  "jacobi_step 2 2 0 16 32 ((\<lambda>_. 0)(21 := 8, 1 := 4, 9 := 12, 6 := 16, 4 := 20)) (32 + (1 * (2+2) + 1)) = (8 + 12 + 4 + 16 + 20) / 4
   \<and> jacobi_step 1 1 0 9 18 ((\<lambda>_. 0)(13 := 8)) (18 + 4) = 8 / 4"
proof -
  have a: "separate 2 2 32 0" "separate 2 2 32 16" "separate 1 1 18 0" "separate 1 1 18 9"
    by (simp_all add: separate_def)
  from jacobi_step_stencil [of 2 2 1 1 32 0 16 "(\<lambda>_. 0)(21 := 8, 1 := 4, 9 := 12, 6 := 16, 4 := 20)"] a
    jacobi_step_stencil [of 1 1 1 1 18 0 9 "(\<lambda>_. 0)(13 := 8)"]
  show ?thesis by simp
qed

text \<open>
  Claim C8.  \<open>jacobi_step\<close> writes interior entries of \<open>t\<close> and nothing else: every other
  address keeps its value, so \<open>x\<close> and \<open>b\<close> are after the call what they were before it
  whenever \<open>t\<close> does not overlap them; and what it writes depends on the contents of \<open>x\<close>
  and \<open>b\<close> only.
\<close>

theorem jacobi_step_frame:
  "(\<forall>a. (\<forall>i j. interior N M i j \<longrightarrow> a \<noteq> t + (i * (M+2) + j))
        \<longrightarrow> jacobi_step N M x b t h a = h a)
   \<and> (separate N M t x \<longrightarrow>
        (\<forall>k. 0 \<le> k \<and> k < (N+2)*(M+2) \<longrightarrow> jacobi_step N M x b t h (x + k) = h (x + k)))
   \<and> (separate N M t b \<longrightarrow>
        (\<forall>k. 0 \<le> k \<and> k < (N+2)*(M+2) \<longrightarrow> jacobi_step N M x b t h (b + k) = h (b + k)))
   \<and> (separate N M t x \<and> separate N M t b
        \<and> (\<forall>k. 0 \<le> k \<and> k < (N+2)*(M+2) \<longrightarrow> h' (x + k) = h (x + k) \<and> h' (b + k) = h (b + k))
      \<longrightarrow> (\<forall>i j. interior N M i j \<longrightarrow>
             jacobi_step N M x b t h' (t + (i * (M+2) + j))
               = jacobi_step N M x b t h (t + (i * (M+2) + j))))"
proof (intro conjI allI impI)
  fix a assume "\<forall>i j. interior N M i j \<longrightarrow> a \<noteq> t + (i * (M+2) + j)"
  then show "jacobi_step N M x b t h a = h a" by (intro jacobi_step_other) blast
next
  fix k assume "separate N M t x" "0 \<le> k \<and> k < (N+2)*(M+2)"
  then show "jacobi_step N M x b t h (x + k) = h (x + k)"
    by (intro jacobi_step_other separate_interior) auto
next
  fix k assume "separate N M t b" "0 \<le> k \<and> k < (N+2)*(M+2)"
  then show "jacobi_step N M x b t h (b + k) = h (b + k)"
    by (intro jacobi_step_other separate_interior) auto
next
  fix i j
  assume a: "separate N M t x \<and> separate N M t b
        \<and> (\<forall>k. 0 \<le> k \<and> k < (N+2)*(M+2) \<longrightarrow> h' (x + k) = h (x + k) \<and> h' (b + k) = h (b + k))"
    and ij: "interior N M i j"
  from a have tx: "separate N M t x" and tb: "separate N M t b"
    and same: "\<And>k. 0 \<le> k \<and> k < (N+2)*(M+2) \<Longrightarrow> h' (x + k) = h (x + k) \<and> h' (b + k) = h (b + k)"
    by blast+
  note o = stencil_offsets [OF ij]
  show "jacobi_step N M x b t h' (t + (i * (M+2) + j)) = jacobi_step N M x b t h (t + (i * (M+2) + j))"
    by (simp only: jacobi_step_at [OF ij tx tb] same [OF o(1)] same [OF o(2)] same [OF o(3)]
          same [OF o(4)] same [OF o(5)])
qed

theorem jacobi_step_frame_witness:
  "jacobi_step 1 1 0 9 18 ((\<lambda>_. 7)(13 := 8)) 4 = 7
   \<and> jacobi_step 1 1 0 9 18 ((\<lambda>_. 7)(13 := 8)) 13 = 8
   \<and> jacobi_step 1 1 0 9 18 ((\<lambda>_. 7)(13 := 8)) 21 = 7
   \<and> jacobi_step 1 1 0 9 18 ((\<lambda>_. 7)(13 := 8, 40 := 1)) 22
       = jacobi_step 1 1 0 9 18 ((\<lambda>_. 7)(13 := 8)) 22"
proof -
  let ?h = "(\<lambda>_. 7)(13 := 8) :: heap"
  let ?h' = "(\<lambda>_. 7)(13 := 8, 40 := 1) :: heap"
  note fr = jacobi_step_frame [of 1 1 18 0 9 ?h ?h']
  have s: "separate 1 1 18 0" "separate 1 1 18 9" by (simp_all add: separate_def)
  have i: "interior 1 1 1 1" by (simp add: interior_def)
  have n: "\<forall>i j. interior 1 1 i j \<longrightarrow> (21::int) \<noteq> 18 + (i * (1+2) + j)"
    by (auto simp: interior_def)
  have agree: "\<forall>k. 0 \<le> k \<and> k < (1+2)*(1+2) \<longrightarrow> ?h' (0 + k) = ?h (0 + k) \<and> ?h' (9 + k) = ?h (9 + k)"
    by simp
  from fr n have "jacobi_step 1 1 0 9 18 ?h 21 = ?h 21" by blast
  moreover from fr s(1)
  have "\<forall>k. 0 \<le> k \<and> k < (1+2)*(1+2) \<longrightarrow> jacobi_step 1 1 0 9 18 ?h (0 + k) = ?h (0 + k)"
    by blast
  then have "jacobi_step 1 1 0 9 18 ?h (0 + 4) = ?h (0 + 4)" by (rule allE [of _ 4]) simp
  moreover from fr s(2)
  have "\<forall>k. 0 \<le> k \<and> k < (1+2)*(1+2) \<longrightarrow> jacobi_step 1 1 0 9 18 ?h (9 + k) = ?h (9 + k)"
    by blast
  then have "jacobi_step 1 1 0 9 18 ?h (9 + 4) = ?h (9 + 4)" by (rule allE [of _ 4]) simp
  moreover from fr s agree i
  have "jacobi_step 1 1 0 9 18 ?h' (18 + (1 * (1+2) + 1)) = jacobi_step 1 1 0 9 18 ?h (18 + (1 * (1+2) + 1))"
    by blast
  ultimately show ?thesis by simp
qed

section \<open>The iteration controller\<close>

subsection \<open>The reduction\<close>

lemma fold_add_sum_list:
  "fold (\<lambda>j s. s + g j) js (s0::real) = s0 + sum_list (map g js)"
  by (induction js arbitrary: s0) (simp_all add: add.assoc)

lemma nested_fold_add:
  "fold (\<lambda>i. fold (\<lambda>j s. s + f i j) js) is (s0::real)
     = s0 + sum_list (map (\<lambda>i. sum_list (map (f i) js)) is)"
  by (induction "is" arbitrary: s0) (simp_all add: fold_add_sum_list add.assoc)

lemma sum_list_upto: "sum_list (map g [l..u]) = (\<Sum>i = l..u. (g i :: real))"
  by (metis sum_set_upto_conv_sum_list_int set_upto)

lemma for_interior_sum:
  "for_interior N M (\<lambda>i j s. s + f i j) (s0::real) = s0 + (\<Sum>i = 1..N. \<Sum>j = 1..M. f i j)"
  unfolding for_interior_def by (simp add: nested_fold_add sum_list_upto)

text \<open>
  Claim C2.  In every pass through the loop body the convergence test takes \<open>s\<close> to be the
  sum over the interior points of \<open>(x[i,j] - t[i,j])\<^sup>2\<close>, read from memory after the sweep,
  prints \<open>sqrt(s)\<close> with the iteration index, and sets \<open>conv\<close> exactly when
  \<open>sqrt(s) < 1e-6\<close>.
\<close>

theorem convergence_test:
  "let h1 = jacobi_step N M x b t (st_mem st);
       r = (\<Sum>i = 1..N. \<Sum>j = 1..M. (h1 (x + (i*(M+2) + j)) - h1 (t + (i*(M+2) + j))) ^ 2);
       st' = jacobi_cycle N M x b t st
   in st_s st' = r \<and> st_conv st' = (sqrt r < 1 / 1000000)
      \<and> st_out st' = st_out st @ [(st_k st, sqrt r)]"
  by (simp add: jacobi_cycle_def Let_def for_interior_sum power2_eq_square tol_def)

subsection \<open>The loop\<close>

lemma jacobi_cycle_k: "st_k (jacobi_cycle N M x b t st) = st_k st + 1"
  by (simp add: jacobi_cycle_def Let_def)

lemma jacobi_while_unroll:
  "st_k st \<le> maxit \<Longrightarrow>
   \<exists>n. jacobi_while N M x b t st = (jacobi_cycle N M x b t ^^ n) st
      \<and> st_k (jacobi_while N M x b t st) = st_k st + int n
      \<and> st_k st + int n \<le> maxit
      \<and> (st_conv (jacobi_while N M x b t st) \<or> st_k st + int n = maxit)
      \<and> (\<forall>m<n. \<not> st_conv ((jacobi_cycle N M x b t ^^ m) st)
               \<and> st_k ((jacobi_cycle N M x b t ^^ m) st) = st_k st + int m)"
proof (induction "nat (maxit - st_k st)" arbitrary: st rule: less_induct)
  case less
  let ?c = "jacobi_cycle N M x b t"
  show ?case
  proof (cases "\<not> st_conv st \<and> st_k st < maxit")
    case False
    with less.prems have "jacobi_while N M x b t st = (?c ^^ 0) st
      \<and> st_k (jacobi_while N M x b t st) = st_k st + int 0
      \<and> st_k st + int 0 \<le> maxit
      \<and> (st_conv (jacobi_while N M x b t st) \<or> st_k st + int 0 = maxit)
      \<and> (\<forall>m<0. \<not> st_conv ((?c ^^ m) st) \<and> st_k ((?c ^^ m) st) = st_k st + int m)"
      by (subst (1 2 3) jacobi_while.simps) auto
    then show ?thesis by (rule exI)
  next
    case True
    then have w: "jacobi_while N M x b t st = jacobi_while N M x b t (?c st)"
      by (subst jacobi_while.simps) simp
    have "st_k (?c st) \<le> maxit" using True by (simp add: jacobi_cycle_k)
    moreover have "nat (maxit - st_k (?c st)) < nat (maxit - st_k st)"
      using True by (simp add: jacobi_cycle_k)
    ultimately obtain n where
      n: "jacobi_while N M x b t (?c st) = (?c ^^ n) (?c st)"
         "st_k (jacobi_while N M x b t (?c st)) = st_k (?c st) + int n"
         "st_k (?c st) + int n \<le> maxit"
         "st_conv (jacobi_while N M x b t (?c st)) \<or> st_k (?c st) + int n = maxit"
         "\<forall>m<n. \<not> st_conv ((?c ^^ m) (?c st)) \<and> st_k ((?c ^^ m) (?c st)) = st_k (?c st) + int m"
      using less.hyps [of "?c st"] by blast
    have sw: "(?c ^^ m) (?c st) = (?c ^^ Suc m) st" for m
      by (simp add: funpow_swap1)
    have a5: "\<forall>m<Suc n. \<not> st_conv ((?c ^^ m) st) \<and> st_k ((?c ^^ m) st) = st_k st + int m"
    proof (intro allI impI)
      fix m assume m: "m < Suc n"
      show "\<not> st_conv ((?c ^^ m) st) \<and> st_k ((?c ^^ m) st) = st_k st + int m"
      proof (cases m)
        case 0
        with True show ?thesis by simp
      next
        case (Suc m')
        with m have "m' < n" by simp
        with n(5) have "\<not> st_conv ((?c ^^ m') (?c st)) \<and> st_k ((?c ^^ m') (?c st)) = st_k (?c st) + int m'"
          by blast
        then show ?thesis unfolding sw Suc by (simp add: jacobi_cycle_k)
      qed
    qed
    have a1: "jacobi_while N M x b t st = (?c ^^ Suc n) st"
      using w n(1) sw by (simp only:)
    have a2: "st_k (jacobi_while N M x b t st) = st_k st + int (Suc n)"
      using n(2) unfolding w by (simp add: jacobi_cycle_k)
    have a3: "st_k st + int (Suc n) \<le> maxit"
      using n(3) by (simp add: jacobi_cycle_k)
    have a4: "st_conv (jacobi_while N M x b t st) \<or> st_k st + int (Suc n) = maxit"
      using n(4) unfolding w by (auto simp: jacobi_cycle_k)
    from a1 a2 a3 a4 a5 have "jacobi_while N M x b t st = (?c ^^ Suc n) st
      \<and> st_k (jacobi_while N M x b t st) = st_k st + int (Suc n)
      \<and> st_k st + int (Suc n) \<le> maxit
      \<and> (st_conv (jacobi_while N M x b t st) \<or> st_k st + int (Suc n) = maxit)
      \<and> (\<forall>m<Suc n. \<not> st_conv ((?c ^^ m) st) \<and> st_k ((?c ^^ m) st) = st_k st + int m)"
      by (intro conjI)
    then show ?thesis by (rule exI)
  qed
qed

lemma jacobi_exit_unroll:
  "\<exists>n. 1 \<le> n \<and> int n \<le> maxit
      \<and> jacobi_exit N M x b t h = (jacobi_cycle N M x b t ^^ n) (jacobi_entry N M t h)
      \<and> st_k (jacobi_exit N M x b t h) = int n
      \<and> (st_conv (jacobi_exit N M x b t h) \<or> int n = maxit)
      \<and> (\<forall>m<n. \<not> st_conv ((jacobi_cycle N M x b t ^^ m) (jacobi_entry N M t h))
               \<and> st_k ((jacobi_cycle N M x b t ^^ m) (jacobi_entry N M t h)) = int m)"
proof -
  let ?e = "jacobi_entry N M t h"
  have k0: "st_k ?e = 0" and c0: "\<not> st_conv ?e" by (simp_all add: jacobi_entry_def)
  then have "st_k ?e \<le> maxit" by (simp add: maxit_def)
  from jacobi_while_unroll [OF this, of N M x b t] obtain n where
    n: "jacobi_while N M x b t ?e = (jacobi_cycle N M x b t ^^ n) ?e"
       "st_k (jacobi_while N M x b t ?e) = st_k ?e + int n"
       "st_k ?e + int n \<le> maxit"
       "st_conv (jacobi_while N M x b t ?e) \<or> st_k ?e + int n = maxit"
       "\<forall>m<n. \<not> st_conv ((jacobi_cycle N M x b t ^^ m) ?e)
               \<and> st_k ((jacobi_cycle N M x b t ^^ m) ?e) = st_k ?e + int m"
    by blast
  have "n \<noteq> 0"
  proof
    assume "n = 0"
    with n(1,4) k0 c0 show False by (simp add: maxit_def)
  qed
  with n k0 show ?thesis unfolding jacobi_exit_def
    by (intro exI [of _ n]) simp
qed

subsection \<open>Memory after one cycle\<close>

lemma separate_sym: "separate N M p q \<Longrightarrow> separate N M q p"
  by (auto simp: separate_def)

lemma interior_offset:
  "interior N M i j \<Longrightarrow> 0 \<le> i * (M+2) + j \<and> i * (M+2) + j < (N+2) * (M+2)"
  by (rule stencil_offsets)

lemma jacobi_cycle_mem_other:
  assumes "\<And>i j. interior N M i j \<Longrightarrow> a \<noteq> t + (i * (M+2) + j) \<and> a \<noteq> x + (i * (M+2) + j)"
  shows "st_mem (jacobi_cycle N M x b t st) a = st_mem st a"
proof -
  have "for_interior N M (\<lambda>i j h. h(x + (i * (M+2) + j) := h (t + (i * (M+2) + j)))) h1 a = h1 a"
    for h1 :: heap
    using assms by (intro for_interior_write_other) blast
  moreover have "jacobi_step N M x b t (st_mem st) a = st_mem st a"
    using assms by (intro jacobi_step_other) blast
  ultimately show ?thesis by (simp add: jacobi_cycle_def Let_def)
qed

lemma jacobi_cycle_x:
  assumes "separate N M t x" "interior N M i j"
  shows "st_mem (jacobi_cycle N M x b t st) (x + (i * (M+2) + j))
           = jacobi_step N M x b t (st_mem st) (t + (i * (M+2) + j))"
proof -
  let ?h1 = "jacobi_step N M x b t (st_mem st)"
  have "for_interior N M (\<lambda>i j h. h(x + (i * (M+2) + j) := h (t + (i * (M+2) + j)))) ?h1
          (x + (i * (M+2) + j)) = ?h1 (t + (i * (M+2) + j))"
  proof (rule for_interior_write_at [OF assms(2)])
    fix h' :: heap
    assume fr: "\<forall>a. (\<forall>i j. interior N M i j \<longrightarrow> a \<noteq> x + (i * (M+2) + j)) \<longrightarrow> h' a = ?h1 a"
    have "\<forall>i' j'. interior N M i' j' \<longrightarrow> t + (i * (M+2) + j) \<noteq> x + (i' * (M+2) + j')"
      using separate_interior [OF separate_sym [OF assms(1)]] interior_offset [OF assms(2)]
      by blast
    with fr show "h' (t + (i * (M+2) + j)) = ?h1 (t + (i * (M+2) + j))" by blast
  qed
  then show ?thesis by (simp add: jacobi_cycle_def Let_def)
qed

lemma jacobi_cycle_t:
  assumes "separate N M t x" "interior N M i j"
  shows "st_mem (jacobi_cycle N M x b t st) (t + (i * (M+2) + j))
           = jacobi_step N M x b t (st_mem st) (t + (i * (M+2) + j))"
proof -
  let ?h1 = "jacobi_step N M x b t (st_mem st)"
  have ne: "\<And>i' j'. interior N M i' j' \<Longrightarrow> t + (i * (M+2) + j) \<noteq> x + (i' * (M+2) + j')"
    using separate_interior [OF separate_sym [OF assms(1)]] interior_offset [OF assms(2)]
    by blast
  have "for_interior N M (\<lambda>i j h. h(x + (i * (M+2) + j) := h (t + (i * (M+2) + j)))) ?h1
          (t + (i * (M+2) + j)) = ?h1 (t + (i * (M+2) + j))"
    using ne by (rule for_interior_write_other)
  then show ?thesis by (simp add: jacobi_cycle_def Let_def)
qed

lemma jacobi_cycles_mem_other:
  assumes "\<And>i j. interior N M i j \<Longrightarrow> a \<noteq> t + (i * (M+2) + j) \<and> a \<noteq> x + (i * (M+2) + j)"
  shows "st_mem ((jacobi_cycle N M x b t ^^ n) st) a = st_mem st a"
  by (induction n) (simp_all add: jacobi_cycle_mem_other [OF assms])

subsection \<open>Boundary points\<close>

lemma boundary_not_interior:
  assumes "boundary N M i j" "interior N M i' j'"
  shows "i * (M+2) + j \<noteq> i' * (M+2) + j'"
proof
  assume "i * (M+2) + j = i' * (M+2) + j'"
  moreover have "0 \<le> j" "j < M+2" "0 \<le> j'" "j' < M+2"
    using assms by (auto simp: boundary_def interior_def)
  ultimately have "i = i' \<and> j = j'" by (rule flat_index_inj)
  with assms show False by (auto simp: boundary_def interior_def)
qed

lemma boundary_offset:
  assumes "0 \<le> N" "0 \<le> M" "boundary N M i j"
  shows "0 \<le> i * (M+2) + j \<and> i * (M+2) + j < (N+2) * (M+2)"
  using assms by (auto simp: boundary_def intro!: flat_index_bounds)

lemma boundary_untouched:
  assumes "0 \<le> N" "0 \<le> M" "separate N M t x" "boundary N M i j" "interior N M i' j'"
  shows "x + (i * (M+2) + j) \<noteq> t + (i' * (M+2) + j') \<and> x + (i * (M+2) + j) \<noteq> x + (i' * (M+2) + j')"
    and "t + (i * (M+2) + j) \<noteq> t + (i' * (M+2) + j') \<and> t + (i * (M+2) + j) \<noteq> x + (i' * (M+2) + j')"
proof -
  note o = boundary_offset [OF assms(1,2,4)]
  note ne = boundary_not_interior [OF assms(4,5)]
  have "x + (i * (M+2) + j) \<noteq> t + (i' * (M+2) + j')"
    using separate_interior [OF assms(3,5)] o by blast
  with ne show "x + (i * (M+2) + j) \<noteq> t + (i' * (M+2) + j') \<and> x + (i * (M+2) + j) \<noteq> x + (i' * (M+2) + j')"
    by simp
  have "t + (i * (M+2) + j) \<noteq> x + (i' * (M+2) + j')"
    using separate_interior [OF separate_sym [OF assms(3)] assms(5)] o by blast
  with ne show "t + (i * (M+2) + j) \<noteq> t + (i' * (M+2) + j') \<and> t + (i * (M+2) + j) \<noteq> x + (i' * (M+2) + j')"
    by simp
qed

lemma sqrt_less_tol: "0 \<le> s \<Longrightarrow> (sqrt s < tol) = (s < tol * tol)"
proof -
  assume "0 \<le> s"
  have "0 \<le> tol" by (simp add: tol_def)
  then have "sqrt (tol * tol) = tol" by simp
  then have "(sqrt s < tol) = (sqrt s < sqrt (tol * tol))" by simp
  also have "\<dots> = (s < tol * tol)" by (rule real_sqrt_less_iff)
  finally show ?thesis .
qed

lemma jacobi_while_stop:
  "st_conv st \<or> maxit \<le> st_k st \<Longrightarrow> jacobi_while N M x b t st = st"
  by (subst jacobi_while.simps) auto

lemma jacobi_while_step:
  "\<not> st_conv st \<Longrightarrow> st_k st < maxit \<Longrightarrow>
   jacobi_while N M x b t st = jacobi_while N M x b t (jacobi_cycle N M x b t st)"
  by (subst jacobi_while.simps) simp

lemma jacobi_entry_mem:
  "st_mem (jacobi_entry N M t h) a = (if t \<le> a \<and> a < t + (N+2)*(M+2) then 0 else h a)"
  by (simp add: jacobi_entry_def calloc_def)

text \<open>
  Claim C4.  Let \<open>N, M \<ge> 0\<close>, let \<open>t\<close> not overlap \<open>x\<close>, and let the boundary entries of \<open>x\<close>
  be zero when \<open>jacobi_poisson\<close> is called.  Then after any number of cycles, and in the
  memory the function leaves, every boundary entry of \<open>x\<close> and of \<open>t\<close> is zero; and neither
  the sweep nor a whole cycle (sweep, reduction, copy) changes a boundary entry of \<open>x\<close> or
  \<open>t\<close>, whatever the memory before.
\<close>

theorem boundary_invariant:
  assumes "0 \<le> N" "0 \<le> M" "separate N M t x"
    and "\<forall>i j. boundary N M i j \<longrightarrow> h (x + (i * (M+2) + j)) = 0"
    and "boundary N M i j"
  shows "st_mem ((jacobi_cycle N M x b t ^^ n) (jacobi_entry N M t h)) (x + (i * (M+2) + j)) = 0
       \<and> st_mem ((jacobi_cycle N M x b t ^^ n) (jacobi_entry N M t h)) (t + (i * (M+2) + j)) = 0
       \<and> fst (jacobi_poisson N M x b t h) (x + (i * (M+2) + j)) = 0
       \<and> fst (jacobi_poisson N M x b t h) (t + (i * (M+2) + j)) = 0
       \<and> jacobi_step N M x b t h' (x + (i * (M+2) + j)) = h' (x + (i * (M+2) + j))
       \<and> jacobi_step N M x b t h' (t + (i * (M+2) + j)) = h' (t + (i * (M+2) + j))
       \<and> st_mem (jacobi_cycle N M x b t st) (x + (i * (M+2) + j)) = st_mem st (x + (i * (M+2) + j))
       \<and> st_mem (jacobi_cycle N M x b t st) (t + (i * (M+2) + j)) = st_mem st (t + (i * (M+2) + j))"
proof -
  let ?e = "jacobi_entry N M t h"
  let ?c = "jacobi_cycle N M x b t"
  let ?bx = "x + (i * (M+2) + j)" and ?bt = "t + (i * (M+2) + j)"
  note o = boundary_offset [OF assms(1,2,5)]
  note un = boundary_untouched [OF assms(1,2,3,5)]
  have ex: "st_mem ?e ?bx = 0"
  proof -
    have "\<not> (t \<le> ?bx \<and> ?bx < t + (N+2)*(M+2))"
      using o assms(3) unfolding separate_def by linarith
    with assms(4,5) show ?thesis by (simp only: jacobi_entry_mem if_False)
  qed
  have et: "st_mem ?e ?bt = 0"
    using o by (simp add: jacobi_entry_mem)
  have keepx: "st_mem ((?c ^^ m) st') ?bx = st_mem st' ?bx" for m st'
    by (rule jacobi_cycles_mem_other) (rule un(1))
  have keept: "st_mem ((?c ^^ m) st') ?bt = st_mem st' ?bt" for m st'
    by (rule jacobi_cycles_mem_other) (rule un(2))
  obtain m where m: "jacobi_exit N M x b t h = (?c ^^ m) ?e"
    using jacobi_exit_unroll [of N M x b t h] by blast
  have p: "fst (jacobi_poisson N M x b t h) = st_mem ((?c ^^ m) ?e)"
    by (simp add: jacobi_poisson_def Let_def m)
  have sx: "jacobi_step N M x b t h' ?bx = h' ?bx"
    by (rule jacobi_step_other) (rule un(1) [THEN conjunct1])
  have st: "jacobi_step N M x b t h' ?bt = h' ?bt"
    by (rule jacobi_step_other) (rule un(2) [THEN conjunct1])
  have cx: "st_mem (?c st) ?bx = st_mem st ?bx"
    by (rule jacobi_cycle_mem_other) (rule un(1))
  have ct: "st_mem (?c st) ?bt = st_mem st ?bt"
    by (rule jacobi_cycle_mem_other) (rule un(2))
  show ?thesis
    unfolding p keepx keept ex et using sx st cx ct by (intro conjI) simp_all
qed

theorem boundary_invariant_witness:
  "st_mem ((jacobi_cycle 1 1 0 9 18 ^^ 3) (jacobi_entry 1 1 18 rhs_small)) (0 + (0 * (1+2) + 1)) = 0
   \<and> st_mem ((jacobi_cycle 1 1 0 9 18 ^^ 3) (jacobi_entry 1 1 18 rhs_small)) (18 + (0 * (1+2) + 1)) = 0
   \<and> fst (jacobi_poisson 1 1 0 9 18 rhs_small) (0 + (0 * (1+2) + 1)) = 0
   \<and> fst (jacobi_poisson 1 1 0 9 18 rhs_small) (18 + (0 * (1+2) + 1)) = 0"
proof -
  have s: "separate 1 1 18 0" by (simp add: separate_def)
  have z: "\<forall>i j. boundary 1 1 i j \<longrightarrow> rhs_small (0 + (i * (1+2) + j)) = 0"
    by (auto simp: boundary_def rhs_small_def)
  have b: "boundary 1 1 0 1" by (simp add: boundary_def)
  from boundary_invariant [where N = 1 and M = 1 and t = 18 and x = 0 and h = rhs_small
      and i = 0 and j = 1 and b = 9 and n = 3, OF _ _ s z b]
  show ?thesis by simp
qed

subsection \<open>The copy of t into x\<close>

text \<open>
  Claim C5, as amended.  Every cycle copies \<open>t\<close> into the interior of \<open>x\<close>, also the cycle
  whose convergence test succeeds: after a cycle \<open>x[i,j]\<close> holds what the sweep of that
  cycle wrote to \<open>t[i,j]\<close>.  The loop is left after some cycle, so the field returned is
  the iterate of the final sweep and agrees with \<open>t\<close> on the interior; once a cycle has set
  \<open>conv\<close> the loop runs no further cycle.
\<close>

theorem copy_in_every_cycle:
  assumes "separate N M t x" "interior N M i j"
  shows "st_mem (jacobi_cycle N M x b t st) (x + (i * (M+2) + j))
           = jacobi_step N M x b t (st_mem st) (t + (i * (M+2) + j))
       \<and> (\<exists>st'. jacobi_exit N M x b t h = jacobi_cycle N M x b t st'
              \<and> st_mem (jacobi_exit N M x b t h) (x + (i * (M+2) + j))
                  = jacobi_step N M x b t (st_mem st') (t + (i * (M+2) + j)))
       \<and> fst (jacobi_poisson N M x b t h) (x + (i * (M+2) + j))
           = fst (jacobi_poisson N M x b t h) (t + (i * (M+2) + j))
       \<and> (st_conv (jacobi_cycle N M x b t st)
            \<longrightarrow> jacobi_while N M x b t (jacobi_cycle N M x b t st) = jacobi_cycle N M x b t st)"
proof -
  let ?c = "jacobi_cycle N M x b t"
  let ?e = "jacobi_entry N M t h"
  obtain n where n: "1 \<le> n" "jacobi_exit N M x b t h = (?c ^^ n) ?e"
    using jacobi_exit_unroll [of N M x b t h] by blast
  then obtain n' where "n = Suc n'" by (cases n) auto
  with n(2) have last: "jacobi_exit N M x b t h = ?c ((?c ^^ n') ?e)" by simp
  have a: "st_mem (?c st) (x + (i * (M+2) + j)) = jacobi_step N M x b t (st_mem st) (t + (i * (M+2) + j))"
    by (rule jacobi_cycle_x [OF assms])
  have b: "\<exists>st'. jacobi_exit N M x b t h = ?c st'
              \<and> st_mem (jacobi_exit N M x b t h) (x + (i * (M+2) + j))
                  = jacobi_step N M x b t (st_mem st') (t + (i * (M+2) + j))"
    using last jacobi_cycle_x [OF assms, of b "(?c ^^ n') ?e"] by (intro exI [of _ "(?c ^^ n') ?e"]) simp
  have c: "fst (jacobi_poisson N M x b t h) (x + (i * (M+2) + j))
           = fst (jacobi_poisson N M x b t h) (t + (i * (M+2) + j))"
    by (simp add: jacobi_poisson_def Let_def last jacobi_cycle_x [OF assms] jacobi_cycle_t [OF assms])
  have d: "st_conv (?c st) \<longrightarrow> jacobi_while N M x b t (?c st) = ?c st"
    by (simp add: jacobi_while_stop)
  from a b c d show ?thesis by (intro conjI)
qed

lemma cycle_1_1:
  "st_mem (jacobi_cycle 1 1 0 9 18 st)
     = (st_mem st)
         (22 := (st_mem st 13 + st_mem st 7 + st_mem st 1 + st_mem st 5 + st_mem st 3) / 4,
          4 := (st_mem st 13 + st_mem st 7 + st_mem st 1 + st_mem st 5 + st_mem st 3) / 4)"
  "st_s (jacobi_cycle 1 1 0 9 18 st)
     = (st_mem st 4 - (st_mem st 13 + st_mem st 7 + st_mem st 1 + st_mem st 5 + st_mem st 3) / 4)
       * (st_mem st 4 - (st_mem st 13 + st_mem st 7 + st_mem st 1 + st_mem st 5 + st_mem st 3) / 4)"
  "st_conv (jacobi_cycle 1 1 0 9 18 st) = (sqrt (st_s (jacobi_cycle 1 1 0 9 18 st)) < tol)"
  by (simp_all add: jacobi_cycle_def jacobi_step_def for_interior_def Let_def)

lemma small_run:
  "jacobi_exit 1 1 0 9 18 rhs_small = jacobi_cycle 1 1 0 9 18 (jacobi_entry 1 1 18 rhs_small)"
  "st_conv (jacobi_exit 1 1 0 9 18 rhs_small)"
  "st_mem (jacobi_exit 1 1 0 9 18 rhs_small) 4 = 1 / 4194304"
proof -
  let ?e = "jacobi_entry 1 1 18 rhs_small"
  let ?c = "jacobi_cycle 1 1 0 9 18"
  have s: "st_s (?c ?e) = (1 / 4194304) * (1 / 4194304)"
    by (simp add: cycle_1_1 jacobi_entry_mem rhs_small_def)
  have conv: "st_conv (?c ?e)"
    unfolding cycle_1_1(3) s by (subst sqrt_less_tol) (simp_all add: tol_def)
  have e: "\<not> st_conv ?e" "st_k ?e < maxit" by (simp_all add: jacobi_entry_def maxit_def)
  show 1: "jacobi_exit 1 1 0 9 18 rhs_small = ?c ?e"
    unfolding jacobi_exit_def
    by (simp only: jacobi_while_step [OF e] jacobi_while_stop [OF disjI1 [OF conv]])
  show "st_conv (jacobi_exit 1 1 0 9 18 rhs_small)" unfolding 1 by (rule conv)
  show "st_mem (jacobi_exit 1 1 0 9 18 rhs_small) 4 = 1 / 4194304"
    unfolding 1 by (simp add: cycle_1_1 jacobi_entry_mem rhs_small_def)
qed

theorem copy_in_every_cycle_witness:
  "fst (jacobi_poisson 1 1 0 9 18 rhs_small) (0 + (1 * (1+2) + 1))
     = fst (jacobi_poisson 1 1 0 9 18 rhs_small) (18 + (1 * (1+2) + 1))
   \<and> jacobi_while 1 1 0 9 18 (jacobi_cycle 1 1 0 9 18 (jacobi_entry 1 1 18 rhs_small))
     = jacobi_cycle 1 1 0 9 18 (jacobi_entry 1 1 18 rhs_small)"
proof -
  have s: "separate 1 1 18 0" by (simp add: separate_def)
  have i: "interior 1 1 1 1" by (simp add: interior_def)
  have c: "st_conv (jacobi_cycle 1 1 0 9 18 (jacobi_entry 1 1 18 rhs_small))"
    using small_run(1,2) by simp
  from copy_in_every_cycle [OF s i, where b = 9 and h = rhs_small
      and st = "jacobi_entry 1 1 18 rhs_small"] c
  show ?thesis by blast
qed

text \<open>
  Claim C5 as stated fails: with \<open>b[1,1] = 2\<^sup>-\<^sup>2\<^sup>0\<close> and \<open>x = 0\<close> the first cycle converges
  (residual \<open>2\<^sup>-\<^sup>2\<^sup>2 < 1e-6\<close>), and the \<open>x[1,1]\<close> returned is \<open>2\<^sup>-\<^sup>2\<^sup>2\<close>, the value of the
  final sweep, not the 0 from before it.
\<close>

theorem converged_cycle_still_copies:
  "st_conv (jacobi_exit 1 1 0 9 18 rhs_small)
   \<and> st_k (jacobi_exit 1 1 0 9 18 rhs_small) = 1
   \<and> rhs_small (0 + (1 * (1+2) + 1)) = 0
   \<and> fst (jacobi_poisson 1 1 0 9 18 rhs_small) (0 + (1 * (1+2) + 1)) = 1 / 4194304"
proof -
  have "st_k (jacobi_exit 1 1 0 9 18 rhs_small) = 1"
    unfolding small_run(1) by (simp add: jacobi_cycle_k jacobi_entry_def)
  moreover have "fst (jacobi_poisson 1 1 0 9 18 rhs_small) 4 = 1 / 4194304"
    by (simp add: jacobi_poisson_def Let_def small_run(3))
  ultimately show ?thesis using small_run(2) by (simp add: rhs_small_def)
qed

subsection \<open>Empty interior\<close>

lemma for_interior_empty:
  assumes "N \<le> 0 \<or> M \<le> 0"
  shows "for_interior N M body s = s"
proof -
  have "fold (\<lambda>i. fold (\<lambda>j. body i j) []) is s = s" for "is" :: "int list"
    by (induction "is") simp_all
  with assms show ?thesis by (auto simp: for_interior_def)
qed

lemma jacobi_cycle_empty:
  assumes "N \<le> 0 \<or> M \<le> 0"
  shows "jacobi_cycle N M x b t st
           = \<lparr>st_mem = st_mem st, st_k = st_k st + 1, st_conv = True, st_s = 0,
              st_out = st_out st @ [(st_k st, 0)]\<rparr>"
  by (simp add: jacobi_cycle_def jacobi_step_def Let_def for_interior_empty [OF assms] tol_def)

text \<open>
  Claim C10.  With \<open>N = 0\<close> or \<open>M = 0\<close> the loop of \<open>jacobi_poisson\<close> runs exactly once and
  is left converged with \<open>s = 0\<close> and the single printed line \<open>(0, 0)\<close>; memory is changed
  only by the zeroing of the fresh block \<open>t\<close>, so every entry of \<open>x\<close> is as before.
\<close>

theorem empty_interior:
  assumes "N = 0 \<or> M = 0"
  shows "st_k (jacobi_exit N M x b t h) = 1
       \<and> terminal_state (jacobi_exit N M x b t h) = Converged
       \<and> st_s (jacobi_exit N M x b t h) = 0
       \<and> snd (jacobi_poisson N M x b t h) = [(0, 0)]
       \<and> fst (jacobi_poisson N M x b t h) = calloc t ((N+2)*(M+2)) h
       \<and> (\<forall>a. \<not> (t \<le> a \<and> a < t + (N+2)*(M+2)) \<longrightarrow> fst (jacobi_poisson N M x b t h) a = h a)"
proof -
  let ?e = "jacobi_entry N M t h"
  let ?c = "jacobi_cycle N M x b t"
  have em: "N \<le> 0 \<or> M \<le> 0" using assms by auto
  have e: "\<not> st_conv ?e" "st_k ?e < maxit" by (simp_all add: jacobi_entry_def maxit_def)
  have conv: "st_conv (?c ?e)" by (simp add: jacobi_cycle_empty [OF em])
  have x: "jacobi_exit N M x b t h = ?c ?e"
    unfolding jacobi_exit_def
    by (simp only: jacobi_while_step [OF e] jacobi_while_stop [OF disjI1 [OF conv]])
  show ?thesis
    by (simp add: x jacobi_poisson_def Let_def jacobi_cycle_empty [OF em] terminal_state_def
          jacobi_entry_def calloc_def)
qed

theorem empty_interior_witness:
  "st_k (jacobi_exit 0 3 0 10 20 ((\<lambda>_. 0)(6 := 5))) = 1
   \<and> terminal_state (jacobi_exit 0 3 0 10 20 ((\<lambda>_. 0)(6 := 5))) = Converged
   \<and> snd (jacobi_poisson 2 0 0 8 16 ((\<lambda>_. 0)(3 := 5))) = [(0, 0)]
   \<and> fst (jacobi_poisson 2 0 0 8 16 ((\<lambda>_. 0)(3 := 5))) 3 = 5
   \<and> arg_N [''poisson'', ''abc''] = 0
   \<and> terminal_state (jacobi_exit (arg_N [''poisson'', ''abc'']) (arg_M [''poisson'', ''abc''])
         0 200 400 (\<lambda>_. 0)) = Converged"
proof -
  have a: "(0::int) = 0 \<or> (3::int) = 0" "(2::int) = 0 \<or> (0::int) = 0" by simp_all
  have n: "arg_N [''poisson'', ''abc''] = 0"
    by (simp add: arg_N_def atoi_def strtol_def int_of_long_def isspace_def isdigit_def)
  then have c: "arg_N [''poisson'', ''abc''] = 0 \<or> arg_M [''poisson'', ''abc''] = 0" by simp
  from empty_interior [OF a(1), where x = 0 and b = 10 and t = 20 and h = "(\<lambda>_. 0)(6 := 5)"]
    empty_interior [OF a(2), where x = 0 and b = 8 and t = 16 and h = "(\<lambda>_. 0)(3 := 5)"]
    empty_interior [OF c, where x = 0 and b = 200 and t = 400 and h = "\<lambda>_. 0"] n
  show ?thesis by (simp add: calloc_def)
qed

subsection \<open>A run of the driver that exhausts the iteration cap\<close>

text \<open>
  With \<open>x = 0\<close> and a constant right-hand side \<open>4c\<close> on a \<open>(2m-1) \<times> (2m-1)\<close> grid, the
  change of \<open>x\<close> in cycle \<open>k\<close> is at least \<open>c (1 - ((i-m)\<^sup>2 + (j-m)\<^sup>2 + k) / m\<^sup>2)\<close> at every
  interior point: this holds for the first sweep, the bound obeys the averaging of the
  sweep, and it is not positive where \<open>x\<close> is held at zero.  At the centre the change is at
  least \<open>c (1 - k / m\<^sup>2)\<close>, which for \<open>m = 300\<close> and \<open>c = 3/80000\<close> stays above \<open>tol\<close> for all
  \<open>k < 70000\<close>; so does the residual.
\<close>

lemma paraboloid_average:
  assumes "m \<noteq> 0"
  shows "(paraboloid m c k (i+1) j + paraboloid m c k (i-1) j
            + paraboloid m c k i (j+1) + paraboloid m c k i (j-1)) / 4
         = paraboloid m c (Suc k) i j"
proof -
  have m: "(of_int m :: real)\<^sup>2 \<noteq> 0" using assms by simp
  show ?thesis
    unfolding paraboloid_def using m
    by (simp add: field_simps power2_eq_square)
qed

lemma paraboloid_boundary:
  assumes "0 \<le> c" "1 \<le> m" "N = 2 * m - 1" "M = 2 * m - 1" "boundary N M i j"
  shows "paraboloid m c k i j \<le> 0"
proof -
  have mp: "0 < (of_int m :: real)\<^sup>2" using assms(2) by simp
  have "i - m = - m \<or> i - m = m \<or> j - m = - m \<or> j - m = m"
    using assms(3,4,5) by (auto simp: boundary_def)
  then have "(of_int (i - m) :: real)\<^sup>2 = (of_int m)\<^sup>2 \<or> (of_int (j - m) :: real)\<^sup>2 = (of_int m)\<^sup>2"
    by auto
  moreover have "0 \<le> (of_int (i - m) :: real)\<^sup>2" "0 \<le> (of_int (j - m) :: real)\<^sup>2" by simp_all
  ultimately have "(of_int m :: real)\<^sup>2 \<le> (of_int (i - m))\<^sup>2 + (of_int (j - m))\<^sup>2 + of_nat k"
    by (smt (verit) of_nat_0_le_iff)
  then have "1 \<le> ((of_int (i - m))\<^sup>2 + (of_int (j - m))\<^sup>2 + of_nat k) / (of_int m :: real)\<^sup>2"
    using mp by (simp add: field_simps)
  then have "1 - ((of_int (i - m))\<^sup>2 + (of_int (j - m))\<^sup>2 + of_nat k) / (of_int m :: real)\<^sup>2 \<le> 0"
    by simp
  with assms(1) show ?thesis unfolding paraboloid_def by (rule mult_nonneg_nonpos)
qed

lemma paraboloid_le:
  assumes "0 \<le> c" "1 \<le> m"
  shows "paraboloid m c k i j \<le> c"
proof -
  have mp: "0 < (of_int m :: real)\<^sup>2" using assms(2) by simp
  have "0 \<le> ((of_int (i - m))\<^sup>2 + (of_int (j - m))\<^sup>2 + of_nat k) / (of_int m :: real)\<^sup>2"
    using mp by (intro divide_nonneg_pos add_nonneg_nonneg) simp_all
  then have "1 - ((of_int (i - m))\<^sup>2 + (of_int (j - m))\<^sup>2 + of_nat k) / (of_int m :: real)\<^sup>2 \<le> 1"
    by simp
  from this assms(1) have "c * (1 - ((of_int (i - m))\<^sup>2 + (of_int (j - m))\<^sup>2 + of_nat k) / (of_int m :: real)\<^sup>2) \<le> c * 1"
    by (rule mult_left_mono)
  then show ?thesis by (simp add: paraboloid_def)
qed

lemma neighbour_in_grid:
  assumes "interior N M i j"
  shows "interior N M (i+1) j \<or> boundary N M (i+1) j"
    and "interior N M (i-1) j \<or> boundary N M (i-1) j"
    and "interior N M i (j+1) \<or> boundary N M i (j+1)"
    and "interior N M i (j-1) \<or> boundary N M i (j-1)"
  using assms by (auto simp: interior_def boundary_def)

lemma growing_step:
  assumes m: "1 \<le> m" and N: "N = 2 * m - 1" and M: "M = 2 * m - 1" and c: "0 \<le> c"
    and tx: "separate N M t x" and tb: "separate N M t b" and xb: "separate N M x b"
    and g: "growing N M x b t m c k st"
  shows "growing N M x b t m c (Suc k) (jacobi_cycle N M x b t st)"
proof -
  let ?h = "st_mem st" and ?h' = "st_mem (jacobi_cycle N M x b t st)"
  have N0: "0 \<le> N" and M0: "0 \<le> M" using m N M by simp_all
  have m0: "m \<noteq> 0" using m by simp
  from g have bd: "\<And>i j. boundary N M i j \<Longrightarrow> ?h (x + (i * (M+2) + j)) = 0"
    and rhs: "\<And>i j. interior N M i j \<Longrightarrow> ?h (b + (i * (M+2) + j)) = 4 * c"
    and low: "\<And>i j. interior N M i j \<Longrightarrow>
           paraboloid m c k i j
             \<le> jacobi_step N M x b t ?h (t + (i * (M+2) + j)) - ?h (x + (i * (M+2) + j))"
    unfolding growing_def by blast+
  have keep_bd: "?h' (x + (i * (M+2) + j)) = ?h (x + (i * (M+2) + j))" if "boundary N M i j" for i j
    by (rule jacobi_cycle_mem_other) (rule boundary_untouched(1) [OF N0 M0 tx that])
  have keep_b: "?h' (b + (i * (M+2) + j)) = ?h (b + (i * (M+2) + j))" if "interior N M i j" for i j
  proof (rule jacobi_cycle_mem_other)
    fix i' j' assume ij': "interior N M i' j'"
    note o = interior_offset [OF that]
    from separate_interior [OF tb ij'] separate_interior [OF xb ij'] o
    show "b + (i * (M+2) + j) \<noteq> t + (i' * (M+2) + j') \<and> b + (i * (M+2) + j) \<noteq> x + (i' * (M+2) + j')"
      by blast
  qed
  have diff: "paraboloid m c k i j \<le> ?h' (x + (i * (M+2) + j)) - ?h (x + (i * (M+2) + j))"
    if "interior N M i j \<or> boundary N M i j" for i j
    using that
  proof
    assume ij: "interior N M i j"
    from low [OF ij] show ?thesis by (simp only: jacobi_cycle_x [OF tx ij])
  next
    assume ij: "boundary N M i j"
    from paraboloid_boundary [OF c m N M ij] show ?thesis by (simp add: keep_bd [OF ij])
  qed
  have new: "paraboloid m c (Suc k) i j
               \<le> jacobi_step N M x b t ?h' (t + (i * (M+2) + j)) - ?h' (x + (i * (M+2) + j))"
    if ij: "interior N M i j" for i j
  proof -
    note nb = neighbour_in_grid [OF ij]
    note d = diff [OF nb(1)] diff [OF nb(2)] diff [OF nb(3)] diff [OF nb(4)]
    have sum: "paraboloid m c k (i+1) j + paraboloid m c k (i-1) j
                 + paraboloid m c k i (j+1) + paraboloid m c k i (j-1)
             \<le> (?h' (x + ((i+1) * (M+2) + j)) - ?h (x + ((i+1) * (M+2) + j)))
               + (?h' (x + ((i-1) * (M+2) + j)) - ?h (x + ((i-1) * (M+2) + j)))
               + (?h' (x + (i * (M+2) + (j+1))) - ?h (x + (i * (M+2) + (j+1))))
               + (?h' (x + (i * (M+2) + (j-1))) - ?h (x + (i * (M+2) + (j-1))))"
      using d by linarith
    have "jacobi_step N M x b t ?h' (t + (i * (M+2) + j)) - ?h' (x + (i * (M+2) + j))
        = jacobi_step N M x b t ?h' (t + (i * (M+2) + j)) - jacobi_step N M x b t ?h (t + (i * (M+2) + j))"
      by (simp only: jacobi_cycle_x [OF tx ij])
    also have "\<dots> = ((?h' (x + ((i+1) * (M+2) + j)) - ?h (x + ((i+1) * (M+2) + j)))
               + (?h' (x + ((i-1) * (M+2) + j)) - ?h (x + ((i-1) * (M+2) + j)))
               + (?h' (x + (i * (M+2) + (j+1))) - ?h (x + (i * (M+2) + (j+1))))
               + (?h' (x + (i * (M+2) + (j-1))) - ?h (x + (i * (M+2) + (j-1))))) / 4"
      unfolding jacobi_step_at [OF ij tx tb] keep_b [OF ij] by (simp add: field_simps)
    finally have e: "jacobi_step N M x b t ?h' (t + (i * (M+2) + j)) - ?h' (x + (i * (M+2) + j))
        = ((?h' (x + ((i+1) * (M+2) + j)) - ?h (x + ((i+1) * (M+2) + j)))
               + (?h' (x + ((i-1) * (M+2) + j)) - ?h (x + ((i-1) * (M+2) + j)))
               + (?h' (x + (i * (M+2) + (j+1))) - ?h (x + (i * (M+2) + (j+1))))
               + (?h' (x + (i * (M+2) + (j-1))) - ?h (x + (i * (M+2) + (j-1))))) / 4" .
    have "paraboloid m c (Suc k) i j
        = (paraboloid m c k (i+1) j + paraboloid m c k (i-1) j
                 + paraboloid m c k i (j+1) + paraboloid m c k i (j-1)) / 4"
      by (rule paraboloid_average [OF m0, symmetric])
    also have "\<dots> \<le> ((?h' (x + ((i+1) * (M+2) + j)) - ?h (x + ((i+1) * (M+2) + j)))
               + (?h' (x + ((i-1) * (M+2) + j)) - ?h (x + ((i-1) * (M+2) + j)))
               + (?h' (x + (i * (M+2) + (j+1))) - ?h (x + (i * (M+2) + (j+1))))
               + (?h' (x + (i * (M+2) + (j-1))) - ?h (x + (i * (M+2) + (j-1))))) / 4"
      using sum by (rule divide_right_mono) simp
    finally show ?thesis unfolding e .
  qed
  show ?thesis
    unfolding growing_def
  proof (intro conjI allI impI)
    fix i j assume "boundary N M i j"
    then show "?h' (x + (i * (M+2) + j)) = 0" by (simp only: keep_bd bd)
  next
    fix i j assume "interior N M i j"
    then show "?h' (b + (i * (M+2) + j)) = 4 * c" by (simp only: keep_b rhs)
  next
    fix i j assume "interior N M i j"
    then show "paraboloid m c (Suc k) i j
               \<le> jacobi_step N M x b t ?h' (t + (i * (M+2) + j)) - ?h' (x + (i * (M+2) + j))"
      by (rule new)
  qed
qed

lemma paraboloid_centre:
  "paraboloid m c k m m = c * (1 - of_nat k / (of_int m)\<^sup>2)"
  by (simp add: paraboloid_def)

lemma growing_not_conv:
  assumes m: "1 \<le> m" and N: "N = 2 * m - 1" and M: "M = 2 * m - 1"
    and tx: "separate N M t x" and tb: "separate N M t b"
    and g: "growing N M x b t m c k st"
    and big: "tol \<le> paraboloid m c k m m"
  shows "\<not> st_conv (jacobi_cycle N M x b t st)"
proof -
  let ?h = "st_mem st"
  let ?h1 = "jacobi_step N M x b t ?h"
  let ?f = "\<lambda>i j. (?h1 (x + (i * (M+2) + j)) - ?h1 (t + (i * (M+2) + j)))
                  * (?h1 (x + (i * (M+2) + j)) - ?h1 (t + (i * (M+2) + j)))"
  have mm: "interior N M m m" using m N M by (simp add: interior_def)
  have s: "st_s (jacobi_cycle N M x b t st) = (\<Sum>i = 1..N. \<Sum>j = 1..M. ?f i j)"
    by (simp add: jacobi_cycle_def Let_def for_interior_sum)
  have cv: "st_conv (jacobi_cycle N M x b t st) = (sqrt (st_s (jacobi_cycle N M x b t st)) < tol)"
    by (simp add: jacobi_cycle_def Let_def)
  have inner: "?f m m \<le> (\<Sum>j = 1..M. ?f m j)"
    using mm by (intro member_le_sum) (simp_all add: interior_def)
  have "(\<Sum>j = 1..M. ?f m j) \<le> (\<Sum>i = 1..N. \<Sum>j = 1..M. ?f i j)"
    using mm by (intro member_le_sum sum_nonneg) (simp_all add: interior_def)
  with inner have le: "?f m m \<le> st_s (jacobi_cycle N M x b t st)" unfolding s by linarith
  have xs: "?h1 (x + (m * (M+2) + m)) = ?h (x + (m * (M+2) + m))"
    using separate_interior [OF tx] interior_offset [OF mm]
    by (intro jacobi_step_other) blast
  from g mm have "paraboloid m c k m m \<le> ?h1 (t + (m * (M+2) + m)) - ?h (x + (m * (M+2) + m))"
    unfolding growing_def by blast
  with big have d: "tol \<le> ?h1 (t + (m * (M+2) + m)) - ?h (x + (m * (M+2) + m))" by linarith
  have tp: "0 \<le> tol" by (simp add: tol_def)
  have "tol * tol \<le> (?h1 (t + (m * (M+2) + m)) - ?h (x + (m * (M+2) + m)))
                     * (?h1 (t + (m * (M+2) + m)) - ?h (x + (m * (M+2) + m)))"
    using d tp by (intro mult_mono) linarith+
  also have "\<dots> = ?f m m" unfolding xs by (simp add: algebra_simps)
  finally have "tol * tol \<le> st_s (jacobi_cycle N M x b t st)" using le by linarith
  moreover from this have "0 \<le> st_s (jacobi_cycle N M x b t st)"
    using tp by (smt (verit) mult_nonneg_nonneg)
  ultimately show ?thesis unfolding cv by (simp add: sqrt_less_tol)
qed

lemma growing_loop:
  assumes m: "1 \<le> m" and N: "N = 2 * m - 1" and M: "M = 2 * m - 1" and c: "0 \<le> c"
    and tx: "separate N M t x" and tb: "separate N M t b" and xb: "separate N M x b"
    and big: "\<And>k. int k < maxit \<Longrightarrow> tol \<le> paraboloid m c k m m"
    and g: "growing N M x b t m c k st"
    and k: "st_k st = int k" "int k \<le> maxit" and nc: "\<not> st_conv st"
  shows "st_k (jacobi_while N M x b t st) = maxit \<and> \<not> st_conv (jacobi_while N M x b t st)"
  using g k nc
proof (induction "nat (maxit - int k)" arbitrary: k st)
  case 0
  then have "st_k st = maxit" by simp
  then have "jacobi_while N M x b t st = st" by (intro jacobi_while_stop) simp
  with 0 \<open>st_k st = maxit\<close> show ?case by simp
next
  case (Suc r)
  let ?st' = "jacobi_cycle N M x b t st"
  have lt: "int k < maxit" using Suc.hyps(2) by linarith
  have g': "growing N M x b t m c (Suc k) ?st'"
    by (rule growing_step [OF m N M c tx tb xb Suc.prems(1)])
  have nc': "\<not> st_conv ?st'"
    by (rule growing_not_conv [OF m N M tx tb Suc.prems(1) big [OF lt]])
  have k': "st_k ?st' = int (Suc k)" using Suc.prems(2) by (simp add: jacobi_cycle_k)
  have le': "int (Suc k) \<le> maxit" using lt by simp
  have r: "r = nat (maxit - int (Suc k))" using Suc.hyps(2) by linarith
  have "st_k st < maxit" using lt Suc.prems(2) by simp
  with Suc.prems(4) have w: "jacobi_while N M x b t st = jacobi_while N M x b t ?st'"
    by (intro jacobi_while_step)
  from Suc.hyps(1) [OF r g' k' le' nc'] show ?case unfolding w .
qed

lemma rhs_const_at:
  "interior N M i j \<Longrightarrow> rhs_const N M b v (b + (i * (M+2) + j)) = v"
  unfolding rhs_const_def by (rule for_interior_write_at) simp_all

lemma rhs_const_other:
  "(\<And>i j. interior N M i j \<Longrightarrow> a \<noteq> b + (i * (M+2) + j)) \<Longrightarrow> rhs_const N M b v a = 0"
  unfolding rhs_const_def by (simp add: for_interior_write_other)

lemma growing_entry:
  assumes m: "1 \<le> m" and N: "N = 2 * m - 1" and M: "M = 2 * m - 1" and c: "0 \<le> c"
    and tx: "separate N M t x" and tb: "separate N M t b" and xb: "separate N M x b"
  shows "growing N M x b t m c 0 (jacobi_entry N M t (rhs_const N M b (4 * c)))"
proof -
  let ?e = "jacobi_entry N M t (rhs_const N M b (4 * c))"
  have xz: "st_mem ?e (x + k) = 0" if "0 \<le> k \<and> k < (N+2)*(M+2)" for k
  proof -
    have "rhs_const N M b (4 * c) (x + k) = 0"
      using separate_interior [OF separate_sym [OF xb]] that
      by (intro rhs_const_other) blast
    then show ?thesis by (simp add: jacobi_entry_mem)
  qed
  have bv: "st_mem ?e (b + (i * (M+2) + j)) = 4 * c" if ij: "interior N M i j" for i j
  proof -
    note o = interior_offset [OF ij]
    have "\<not> (t \<le> b + (i * (M+2) + j) \<and> b + (i * (M+2) + j) < t + (N+2)*(M+2))"
      using o tb unfolding separate_def by linarith
    then have "st_mem ?e (b + (i * (M+2) + j)) = rhs_const N M b (4 * c) (b + (i * (M+2) + j))"
      unfolding jacobi_entry_mem by (rule if_not_P)
    then show ?thesis by (simp only: rhs_const_at [OF ij])
  qed
  have N0: "0 \<le> N" and M0: "0 \<le> M" using m N M by simp_all
  show ?thesis
    unfolding growing_def
  proof (intro conjI allI impI)
    fix i j assume "boundary N M i j"
    from xz [OF boundary_offset [OF N0 M0 this]]
    show "st_mem ?e (x + (i * (M+2) + j)) = 0" .
  next
    fix i j assume "interior N M i j"
    then show "st_mem ?e (b + (i * (M+2) + j)) = 4 * c" by (rule bv)
  next
    fix i j assume ij: "interior N M i j"
    note o = stencil_offsets [OF ij]
    have "jacobi_step N M x b t (st_mem ?e) (t + (i * (M+2) + j)) - st_mem ?e (x + (i * (M+2) + j)) = c"
      unfolding jacobi_step_at [OF ij tx tb] bv [OF ij] xz [OF o(1)] xz [OF o(2)] xz [OF o(3)]
        xz [OF o(4)] xz [OF o(5)]
      by simp
    with paraboloid_le [OF c m, of 0 i j]
    show "paraboloid m c 0 i j
            \<le> jacobi_step N M x b t (st_mem ?e) (t + (i * (M+2) + j)) - st_mem ?e (x + (i * (M+2) + j))"
      by simp
  qed
qed

lemma driver_run_599:
  "st_k (jacobi_exit 599 599 0 361201 722402 (rhs_const 599 599 361201 (3 / 20000))) = maxit"
  "\<not> st_conv (jacobi_exit 599 599 0 361201 722402 (rhs_const 599 599 361201 (3 / 20000)))"
proof -
  let ?e = "jacobi_entry 599 599 722402 (rhs_const 599 599 361201 (4 * (3 / 80000)))"
  have s: "separate 599 599 722402 0" "separate 599 599 722402 361201" "separate 599 599 0 361201"
    by (simp_all add: separate_def)
  have p: "(1::int) \<le> 300" "(599::int) = 2 * 300 - 1" "(0::real) \<le> 3 / 80000"
    by simp_all
  have g: "growing 599 599 0 361201 722402 300 (3 / 80000) 0 ?e"
    by (rule growing_entry [OF p(1) p(2) p(2) p(3) s])
  have big: "tol \<le> paraboloid 300 (3 / 80000) k 300 300" if "int k < maxit" for k
  proof -
    have "real k \<le> 70000" using that by (simp add: maxit_def)
    then have "1 - 70000 / 90000 \<le> 1 - real k / 90000" by simp
    then have "3 / 80000 * (1 - 70000 / 90000) \<le> 3 / 80000 * (1 - real k / 90000)"
      by (intro mult_left_mono) simp_all
    then show ?thesis by (simp add: paraboloid_centre tol_def)
  qed
  have e: "st_k ?e = int 0" "int 0 \<le> maxit" "\<not> st_conv ?e"
    by (simp_all add: jacobi_entry_def maxit_def)
  have q: "4 * (3 / 80000) = (3 / 20000 :: real)" by simp
  have "st_k (jacobi_while 599 599 0 361201 722402 ?e) = maxit
      \<and> \<not> st_conv (jacobi_while 599 599 0 361201 722402 ?e)"
    by (rule growing_loop [OF p(1) p(2) p(2) p(3) s big g e])
  then show "st_k (jacobi_exit 599 599 0 361201 722402 (rhs_const 599 599 361201 (3 / 20000))) = maxit"
    "\<not> st_conv (jacobi_exit 599 599 0 361201 722402 (rhs_const 599 599 361201 (3 / 20000)))"
    unfolding jacobi_exit_def q by blast+
qed

subsection \<open>What the caller gets\<close>

lemma four_run:
  "st_k (jacobi_exit 1 1 0 9 18 rhs_four) = 2"
  "st_mem (jacobi_exit 1 1 0 9 18 rhs_four) = (\<lambda>_. 0)(13 := 4, 22 := 1, 4 := 1)"
proof -
  let ?e = "jacobi_entry 1 1 18 rhs_four"
  let ?c = "jacobi_cycle 1 1 0 9 18"
  have m0: "st_mem ?e a = ((\<lambda>_. 0)(13 := 4)) a" for a
    by (simp add: jacobi_entry_mem rhs_four_def)
  have m1: "st_mem (?c ?e) a = ((\<lambda>_. 0)(13 := 4, 22 := 1, 4 := 1)) a" for a
    by (simp add: cycle_1_1(1) m0)
  have m2: "st_mem (?c (?c ?e)) a = ((\<lambda>_. 0)(13 := 4, 22 := 1, 4 := 1)) a" for a
    by (subst cycle_1_1(1)) (simp add: m1)
  have s1: "st_s (?c ?e) = 1" by (simp add: cycle_1_1(2) m0)
  have s2: "st_s (?c (?c ?e)) = 0" by (subst cycle_1_1(2)) (simp add: m1)
  have c1: "\<not> st_conv (?c ?e)" by (simp add: cycle_1_1(3) s1 tol_def)
  have c2: "st_conv (?c (?c ?e))" by (simp add: cycle_1_1(3) s2 tol_def)
  have e: "\<not> st_conv ?e" "st_k ?e < maxit" by (simp_all add: jacobi_entry_def maxit_def)
  have k1: "st_k (?c ?e) < maxit" by (simp add: jacobi_cycle_k jacobi_entry_def maxit_def)
  have x: "jacobi_exit 1 1 0 9 18 rhs_four = ?c (?c ?e)"
    unfolding jacobi_exit_def
    by (simp only: jacobi_while_step [OF e] jacobi_while_step [OF c1 k1]
          jacobi_while_stop [OF disjI1 [OF c2]])
  show "st_k (jacobi_exit 1 1 0 9 18 rhs_four) = 2"
    unfolding x by (simp add: jacobi_cycle_k jacobi_entry_def)
  show "st_mem (jacobi_exit 1 1 0 9 18 rhs_four) = (\<lambda>_. 0)(13 := 4, 22 := 1, 4 := 1)"
    unfolding x by (rule ext) (rule m2)
qed

lemma one_run:
  "st_k (jacobi_exit 1 1 0 9 18 start_one) = 1"
  "st_mem (jacobi_exit 1 1 0 9 18 start_one) = (\<lambda>_. 0)(13 := 4, 22 := 1, 4 := 1)"
proof -
  let ?e = "jacobi_entry 1 1 18 start_one"
  let ?c = "jacobi_cycle 1 1 0 9 18"
  have m0: "st_mem ?e a = ((\<lambda>_. 0)(13 := 4, 4 := 1)) a" for a
    by (simp add: jacobi_entry_mem start_one_def)
  have m1: "st_mem (?c ?e) a = ((\<lambda>_. 0)(13 := 4, 22 := 1, 4 := 1)) a" for a
    by (simp add: cycle_1_1(1) m0)
  have s1: "st_s (?c ?e) = 0" by (simp add: cycle_1_1(2) m0)
  have c1: "st_conv (?c ?e)" by (simp add: cycle_1_1(3) s1 tol_def)
  have e: "\<not> st_conv ?e" "st_k ?e < maxit" by (simp_all add: jacobi_entry_def maxit_def)
  have x: "jacobi_exit 1 1 0 9 18 start_one = ?c ?e"
    unfolding jacobi_exit_def
    by (simp only: jacobi_while_step [OF e] jacobi_while_stop [OF disjI1 [OF c1]])
  show "st_k (jacobi_exit 1 1 0 9 18 start_one) = 1"
    unfolding x by (simp add: jacobi_cycle_k jacobi_entry_def)
  show "st_mem (jacobi_exit 1 1 0 9 18 start_one) = (\<lambda>_. 0)(13 := 4, 22 := 1, 4 := 1)"
    unfolding x by (rule ext) (rule m1)
qed

text \<open>
  Claim C6 as stated fails: \<open>jacobi_poisson\<close> hands back the field only, and the field does
  not tell the iteration count.  On the \<open>1 \<times> 1\<close> grid the run from \<open>rhs_four\<close> takes 2 cycles
  and the run from \<open>start_one\<close> takes 1, and both leave the same memory.
\<close>

theorem field_does_not_tell_iteration_count:
  "fst (jacobi_poisson 1 1 0 9 18 rhs_four) = fst (jacobi_poisson 1 1 0 9 18 start_one)
   \<and> st_k (jacobi_exit 1 1 0 9 18 rhs_four) = 2
   \<and> st_k (jacobi_exit 1 1 0 9 18 start_one) = 1"
  by (simp add: jacobi_poisson_def Let_def four_run one_run)

lemma jacobi_cycle_out:
  "st_out (jacobi_cycle N M x b t st)
     = st_out st @ [(st_k st, sqrt (st_s (jacobi_cycle N M x b t st)))]"
  by (simp add: jacobi_cycle_def Let_def)

lemma jacobi_cycles_out:
  "map fst (st_out ((jacobi_cycle N M x b t ^^ n) (jacobi_entry N M t h))) = [0..int n - 1]
   \<and> st_k ((jacobi_cycle N M x b t ^^ n) (jacobi_entry N M t h)) = int n"
proof (induction n)
  case 0
  show ?case by (simp add: jacobi_entry_def)
next
  case (Suc n)
  have "[0..int n] = [0..int n - 1] @ [int n]" by (rule upto_rec2) simp
  with Suc show ?case by (simp add: jacobi_cycle_out jacobi_cycle_k)
qed

text \<open>
  Claim C6, as amended.  What \<open>jacobi_poisson\<close> leaves to its caller is the memory of the
  loop's exit state, with \<open>x\<close> updated in place; the iteration count and the residual are
  not returned but printed, one line per cycle: the indices printed are \<open>0, \<dots>, k-1\<close> for
  the final count \<open>k\<close>, and the last line carries the final residual \<open>sqrt(s)\<close>.
\<close>

theorem jacobi_poisson_result:
  "fst (jacobi_poisson N M x b t h) = st_mem (jacobi_exit N M x b t h)
   \<and> map fst (snd (jacobi_poisson N M x b t h)) = [0..st_k (jacobi_exit N M x b t h) - 1]
   \<and> snd (last (snd (jacobi_poisson N M x b t h))) = sqrt (st_s (jacobi_exit N M x b t h))"
proof -
  let ?c = "jacobi_cycle N M x b t"
  let ?e = "jacobi_entry N M t h"
  obtain n where n: "1 \<le> n" "jacobi_exit N M x b t h = (?c ^^ n) ?e"
    using jacobi_exit_unroll [of N M x b t h] by blast
  then obtain n' where "n = Suc n'" by (cases n) auto
  with n(2) have last: "jacobi_exit N M x b t h = ?c ((?c ^^ n') ?e)" by simp
  have "snd (last (st_out (?c ((?c ^^ n') ?e)))) = sqrt (st_s (?c ((?c ^^ n') ?e)))"
    by (subst jacobi_cycle_out) simp
  then have "snd (last (st_out (jacobi_exit N M x b t h))) = sqrt (st_s (jacobi_exit N M x b t h))"
    by (simp only: last)
  moreover have "map fst (st_out (jacobi_exit N M x b t h)) = [0..st_k (jacobi_exit N M x b t h) - 1]"
    unfolding n(2) using jacobi_cycles_out [where N = N and M = M and x = x and b = b and t = t and n = n and h = h]
    by simp
  ultimately show ?thesis by (simp add: jacobi_poisson_def Let_def)
qed

text \<open>
  Claim C3.  The loop of \<open>jacobi_poisson\<close> is entered with \<open>k = 0\<close>, every cycle adds 1 to
  \<open>k\<close>, and for every input the loop is left after \<open>n\<close> cycles with \<open>1 \<le> n \<le> 70000\<close> and
  \<open>k = n\<close>, the state before each of these cycles being unconverged with \<open>k\<close> equal to the
  number of cycles run so far.  On exit either \<open>conv\<close> is set or \<open>k = 70000\<close>; in the exhausted
  state \<open>k\<close> is exactly the cap.
\<close>

theorem jacobi_poisson_terminates:
  "st_k (jacobi_entry N M t h) = 0
   \<and> st_k (jacobi_cycle N M x b t st) = st_k st + 1
   \<and> (\<exists>n. 1 \<le> n \<and> n \<le> 70000
          \<and> jacobi_exit N M x b t h = (jacobi_cycle N M x b t ^^ n) (jacobi_entry N M t h)
          \<and> st_k (jacobi_exit N M x b t h) = int n
          \<and> (\<forall>m<n. \<not> st_conv ((jacobi_cycle N M x b t ^^ m) (jacobi_entry N M t h))
                   \<and> st_k ((jacobi_cycle N M x b t ^^ m) (jacobi_entry N M t h)) = int m))
   \<and> (st_conv (jacobi_exit N M x b t h) \<or> st_k (jacobi_exit N M x b t h) = 70000)
   \<and> (terminal_state (jacobi_exit N M x b t h) = Exhausted
        \<longrightarrow> st_k (jacobi_exit N M x b t h) = 70000)"
proof -
  let ?c = "jacobi_cycle N M x b t"
  let ?e = "jacobi_entry N M t h"
  let ?x = "jacobi_exit N M x b t h"
  obtain n where n: "1 \<le> n" "int n \<le> maxit" "?x = (?c ^^ n) ?e" "st_k ?x = int n"
    "st_conv ?x \<or> int n = maxit"
    "\<forall>m<n. \<not> st_conv ((?c ^^ m) ?e) \<and> st_k ((?c ^^ m) ?e) = int m"
    using jacobi_exit_unroll [of N M x b t h] by blast
  have le: "n \<le> 70000" using n(2) by (simp add: maxit_def)
  have a: "st_k ?e = 0" by (simp add: jacobi_entry_def)
  have b: "st_k (?c st) = st_k st + 1" by (rule jacobi_cycle_k)
  have c: "\<exists>n. 1 \<le> n \<and> n \<le> 70000 \<and> ?x = (?c ^^ n) ?e \<and> st_k ?x = int n
          \<and> (\<forall>m<n. \<not> st_conv ((?c ^^ m) ?e) \<and> st_k ((?c ^^ m) ?e) = int m)"
    using n(1,3,4,6) le by blast
  have d: "st_conv ?x \<or> st_k ?x = 70000"
    using n(4,5) by (auto simp: maxit_def)
  then have e: "terminal_state ?x = Exhausted \<longrightarrow> st_k ?x = 70000"
    by (auto simp: terminal_state_def)
  from a b c d e show ?thesis by (intro conjI)
qed

theorem jacobi_poisson_terminates_witness:
  "terminal_state (jacobi_exit 599 599 0 361201 722402 (rhs_const 599 599 361201 (3 / 20000)))
     = Exhausted
   \<and> st_k (jacobi_exit 599 599 0 361201 722402 (rhs_const 599 599 361201 (3 / 20000))) = 70000"
proof -
  have x: "terminal_state (jacobi_exit 599 599 0 361201 722402 (rhs_const 599 599 361201 (3 / 20000)))
             = Exhausted"
    using driver_run_599(2) by (simp add: terminal_state_def)
  with jacobi_poisson_terminates [where N = 599 and M = 599 and x = 0 and b = 361201
      and t = 722402 and h = "rhs_const 599 599 361201 (3 / 20000)"]
  show ?thesis by blast
qed

section \<open>The driver\<close>

lemma digits_nonneg: "0 \<le> acc \<Longrightarrow> 0 \<le> digits acc cs"
proof (induction cs arbitrary: acc)
  case Nil
  then show ?case by simp
next
  case (Cons c cs)
  show ?case
  proof (cases "isdigit c")
    case True
    then have "(of_char (CHR ''0'') :: nat) \<le> of_char c"
      by (simp add: isdigit_def less_eq_char_def)
    then have "(of_char (CHR ''0'') :: int) \<le> of_char c"
      by (metis of_char_of of_nat_le_iff of_nat_of_char)
    with Cons.prems have "0 \<le> 10 * acc + (of_char c - of_char CHR ''0'')" by simp
    from Cons.IH [OF this] True show ?thesis by simp
  next
    case False
    with Cons.prems show ?thesis by simp
  qed
qed

lemma atoi_range: "- (2 ^ 31) \<le> atoi str \<and> atoi str < 2 ^ 31"
proof -
  have "0 \<le> (strtol str + 2147483648) mod 4294967296"
    "(strtol str + 2147483648) mod 4294967296 < 4294967296"
    by simp_all
  then show ?thesis unfolding atoi_def int_of_long_def by simp
qed

lemma atoi_minus:
  assumes "dropWhile isspace str \<noteq> []" "hd (dropWhile isspace str) = CHR ''-''"
    and "0 < digits 0 (tl (dropWhile isspace str))"
    and "digits 0 (tl (dropWhile isspace str)) \<le> 2 ^ 31"
  shows "atoi str = - digits 0 (tl (dropWhile isspace str))"
proof -
  let ?d = "digits 0 (tl (dropWhile isspace str))"
  have "strtol str = - ?d" using assms by (simp add: strtol_def Let_def)
  moreover have "(- ?d + 2 ^ 31) mod 2 ^ 32 = - ?d + 2 ^ 31"
    using assms(3,4) by (intro mod_pos_pos_trivial) simp_all
  ultimately show ?thesis by (simp add: atoi_def int_of_long_def)
qed

text \<open>
  Claim C7, as amended.  \<open>N\<close> falls back to 50 when the \<open>int\<close> that \<open>atoi\<close> returns for the
  first argument is negative, and \<open>M\<close> to 1 when the one for the second argument is
  negative; every other argument is taken as \<open>atoi\<close> returns it, so text without leading
  digits gives the dimension 0.  A missing argument leaves the default 50, and each
  dimension lies between 0 and \<open>2\<^sup>3\<^sup>1 - 1\<close>.  An argument that is, after leading white space,
  a minus sign followed by digits of a value from 1 to \<open>2\<^sup>3\<^sup>1\<close> is returned by \<open>atoi\<close> as that
  negative number, so it falls back.
\<close>

theorem negative_argument_fallback:
  "(atoi a < 0 \<longrightarrow> arg_N [prog, a] = 50 \<and> arg_N [prog, a, c] = 50)
   \<and> (0 \<le> atoi a \<longrightarrow> arg_N [prog, a] = atoi a \<and> arg_N [prog, a, c] = atoi a)
   \<and> (atoi c < 0 \<longrightarrow> arg_M [prog, a, c] = 1)
   \<and> (0 \<le> atoi c \<longrightarrow> arg_M [prog, a, c] = atoi c)
   \<and> arg_N [prog] = 50 \<and> arg_M [prog] = 50 \<and> arg_M [prog, a] = 50
   \<and> 0 \<le> arg_N argv \<and> arg_N argv < 2 ^ 31 \<and> 0 \<le> arg_M argv \<and> arg_M argv < 2 ^ 31
   \<and> (dropWhile isspace a \<noteq> [] \<and> hd (dropWhile isspace a) = CHR ''-''
        \<and> 0 < digits 0 (tl (dropWhile isspace a))
        \<and> digits 0 (tl (dropWhile isspace a)) \<le> 2 ^ 31
      \<longrightarrow> atoi a = - digits 0 (tl (dropWhile isspace a)) \<and> arg_N [prog, a] = 50)"
proof -
  have n: "0 \<le> arg_N argv \<and> arg_N argv < 2 ^ 31"
    using atoi_range [of "argv ! 1"] by (simp add: arg_N_def Let_def)
  have m: "0 \<le> arg_M argv \<and> arg_M argv < 2 ^ 31"
    using atoi_range [of "argv ! 2"] by (simp add: arg_M_def Let_def)
  have d: "arg_N [prog] = 50 \<and> arg_M [prog] = 50 \<and> arg_M [prog, a] = 50"
    by (simp add: arg_N_def arg_M_def)
  have an: "atoi a < 0 \<longrightarrow> arg_N [prog, a] = 50 \<and> arg_N [prog, a, c] = 50"
    by (simp add: arg_N_def)
  have ap: "0 \<le> atoi a \<longrightarrow> arg_N [prog, a] = atoi a \<and> arg_N [prog, a, c] = atoi a"
    by (simp add: arg_N_def Let_def)
  have cn: "atoi c < 0 \<longrightarrow> arg_M [prog, a, c] = 1"
    by (simp add: arg_M_def)
  have cp: "0 \<le> atoi c \<longrightarrow> arg_M [prog, a, c] = atoi c"
    by (simp add: arg_M_def Let_def)
  have mi: "atoi a = - digits 0 (tl (dropWhile isspace a)) \<and> arg_N [prog, a] = 50"
    if "dropWhile isspace a \<noteq> [] \<and> hd (dropWhile isspace a) = CHR ''-''
        \<and> 0 < digits 0 (tl (dropWhile isspace a))
        \<and> digits 0 (tl (dropWhile isspace a)) \<le> 2 ^ 31"
  proof -
    have e: "atoi a = - digits 0 (tl (dropWhile isspace a))"
      using that by (intro atoi_minus) blast+
    with that have "atoi a < 0" by linarith
    with an e show ?thesis by blast
  qed
  from an ap cn cp d n m mi show ?thesis by blast
qed

theorem negative_argument_fallback_witness:
  "arg_N [''poisson'', ''-5''] = 50 \<and> arg_M [''poisson'', ''7'', ''-3''] = 1
   \<and> arg_N [''poisson'', ''7'', ''-3''] = 7 \<and> arg_M [''poisson'', ''-5'', ''12''] = 12
   \<and> atoi ''2147483648'' = - 2147483648 \<and> arg_N [''poisson'', ''2147483648''] = 50
   \<and> atoi ''-2147483649'' = 2147483647 \<and> arg_N [''poisson'', ''-2147483649''] = 2147483647"
proof -
  have v: "atoi ''-5'' = -5" "atoi ''-3'' = -3" "atoi ''7'' = 7" "atoi ''12'' = 12"
    "atoi ''2147483648'' = - 2147483648" "atoi ''-2147483649'' = 2147483647"
    by (simp_all add: atoi_def strtol_def int_of_long_def isspace_def isdigit_def)
  from negative_argument_fallback [of "''-5''" "''poisson''" "''12''"]
    negative_argument_fallback [of "''7''" "''poisson''" "''-3''"]
    negative_argument_fallback [of "''2147483648''" "''poisson''"]
    negative_argument_fallback [of "''-2147483649''" "''poisson''"]
  show ?thesis by (simp add: v)
qed

text \<open>
  Claim C7 as stated fails: \<open>abc\<close> and \<open>0\<close> are not positive integers, yet as first
  argument \<open>abc\<close> gives \<open>N = 0\<close>, not 50, and as second argument \<open>0\<close> gives \<open>M = 0\<close>, not 1.
\<close>

theorem invalid_argument_kept:
  "\<not> positive_integer_arg ''abc'' \<and> arg_N [''poisson'', ''abc''] = 0
   \<and> \<not> positive_integer_arg ''0'' \<and> arg_M [''poisson'', ''10'', ''0''] = 0"
  by (simp add: positive_integer_arg_def arg_N_def arg_M_def atoi_def strtol_def int_of_long_def
        isspace_def isdigit_def)

text \<open>
  Claim C9.  When the report file opens, \<open>main\<close> returns, with exit code 1 if the matrix
  dump cannot be opened and 0 otherwise.  Whenever \<open>main\<close> returns, its exit code is 0 or 1,
  and it is 1 exactly when the dump cannot be opened.  The only run without an exit code
  of the driver's own is the one whose report file fails to open, where \<open>fprintf\<close> is
  called on a null stream.
\<close>

theorem main_exit_code:
  "(report_opens env \<longrightarrow>
      map_sum id exit_code (main argv env) = Inr (if dump_opens env then 0 else 1))
   \<and> (\<forall>r. main argv env = Inr r \<longrightarrow>
         (exit_code r = 0 \<or> exit_code r = 1) \<and> (exit_code r = 1) = (\<not> dump_opens env))
   \<and> (main argv env = Inl NullStream) = (\<not> report_opens env)"
  by (auto simp: main_def Let_def)

theorem main_exit_code_witness:
  "map_sum id exit_code (main [''poisson'', ''1'', ''1''] (run_env True False)) = Inr 1
   \<and> map_sum id exit_code (main [''poisson'', ''1'', ''1''] (run_env True True)) = Inr 0
   \<and> main [''poisson'', ''1'', ''1''] (run_env False True) = Inl NullStream"
proof -
  have e: "report_opens (run_env True False)" "\<not> dump_opens (run_env True False)"
    "report_opens (run_env True True)" "dump_opens (run_env True True)"
    "\<not> report_opens (run_env False True)"
    by (simp_all add: run_env_def)
  from main_exit_code [of "run_env True False" "[''poisson'', ''1'', ''1'']"]
    main_exit_code [of "run_env True True" "[''poisson'', ''1'', ''1'']"]
    main_exit_code [of "run_env False True" "[''poisson'', ''1'', ''1'']"] e
  show ?thesis by simp
qed

end
